theory Spec2Isabelle
  imports Complex_Main "HOL-Library.Sublist"
begin

section \<open>Characters and strings\<close>

text \<open>
  The scraper works on Python \<open>str\<close> values.  The model takes the page text as a list of
  8-bit characters and reads it as ASCII: the character classes below are the ASCII part of
  what \<open>\d\<close>, \<open>\s\<close>, \<open>str.strip\<close> and \<open>re.IGNORECASE\<close> accept in Python 3.
\<close>

definition isdigit :: "char \<Rightarrow> bool" where
  "isdigit c = (c \<in> set ''0123456789'')"

definition isspace :: "char \<Rightarrow> bool" where
  "isspace c = (c \<in> set [CHR '' '', CHR 0x09, CHR 0x0A, CHR 0x0B, CHR 0x0C, CHR 0x0D,
                           CHR 0x1C, CHR 0x1D, CHR 0x1E, CHR 0x1F])"

definition isupper :: "char \<Rightarrow> bool" where
  "isupper c = (c \<in> set ''ABCDEFGHIJKLMNOPQRSTUVWXYZ'')"

definition islower :: "char \<Rightarrow> bool" where
  "islower c = (c \<in> set ''abcdefghijklmnopqrstuvwxyz'')"

definition isalpha :: "char \<Rightarrow> bool" where
  "isalpha c = (isupper c \<or> islower c)"

definition lower :: "char \<Rightarrow> char" where
  "lower c = (case map_of (zip ''ABCDEFGHIJKLMNOPQRSTUVWXYZ'' ''abcdefghijklmnopqrstuvwxyz'') c of
                Some l \<Rightarrow> l | None \<Rightarrow> c)"

definition upper :: "char \<Rightarrow> char" where
  "upper c = (case map_of (zip ''abcdefghijklmnopqrstuvwxyz'' ''ABCDEFGHIJKLMNOPQRSTUVWXYZ'') c of
                Some u \<Rightarrow> u | None \<Rightarrow> c)"

text \<open>\<open>str.strip()\<close> with no argument: leading and trailing whitespace removed.\<close>

definition strip :: "string \<Rightarrow> string" where
  "strip s = rev (dropWhile isspace (rev (dropWhile isspace s)))"

text \<open>\<open>str.split(sep)\<close> for a one-character separator: always at least one piece.\<close>

fun split_acc :: "char \<Rightarrow> string \<Rightarrow> string \<Rightarrow> string list" where
  "split_acc sep acc [] = [rev acc]"
| "split_acc sep acc (c # cs) =
     (if c = sep then rev acc # split_acc sep [] cs else split_acc sep (c # acc) cs)"

definition split :: "char \<Rightarrow> string \<Rightarrow> string list" where
  "split sep s = split_acc sep [] s"

section \<open>Regular expressions as Python's \<open>re\<close> matches them\<close>

text \<open>
  The patterns of the scraper are written in the datatype \<open>regex\<close> and run by a
  backtracking matcher in continuation-passing style, which tries alternatives in the order
  Python's engine does: the left branch of \<open>|\<close> first, one more iteration first for a greedy
  repetition, the rest of the pattern first for a lazy one.  A matcher state is the position
  in the text, the text from that position on, and the groups captured so far (most recent
  first).
\<close>

datatype regex =
    Chr char
  | Cls "char \<Rightarrow> bool"
  | Dot
  | Eps
  | Bol
  | Eol
  | Seq regex regex
  | Alt regex regex
  | Star bool regex
  | Grp nat regex
  | Look regex

record flags =
  ignorecase :: bool
  dotall :: bool

type_synonym mstate = "nat \<times> string \<times> (nat \<times> string) list"
type_synonym mcont = "mstate \<Rightarrow> mstate option"

text \<open>
  \<open>Star greedy r\<close>: zero or more repetitions of \<open>r\<close>.  An iteration has to consume at least
  one character to be followed by another one; every repeated subpattern of the scraper does.
\<close>

function star_m :: "bool \<Rightarrow> (mcont \<Rightarrow> mcont) \<Rightarrow> mcont \<Rightarrow> mcont" where
  "star_m greedy mr k (p, s, caps) =
     (if greedy then
        (case mr (\<lambda>(p', s', caps'). if length s' < length s
                                      then star_m greedy mr k (p', s', caps') else None)
                 (p, s, caps) of
           Some x \<Rightarrow> Some x
         | None \<Rightarrow> k (p, s, caps))
      else
        (case k (p, s, caps) of
           Some x \<Rightarrow> Some x
         | None \<Rightarrow> mr (\<lambda>(p', s', caps'). if length s' < length s
                                             then star_m greedy mr k (p', s', caps') else None)
                        (p, s, caps)))"
  by pat_completeness auto
termination
  by (relation "measure (\<lambda>(g, mr, k, p, s, caps). length s)") auto

declare star_m.simps [simp del]

primrec re_m :: "flags \<Rightarrow> regex \<Rightarrow> mcont \<Rightarrow> mcont" where
  "re_m fl (Chr c) k st =
     (case st of (p, s, caps) \<Rightarrow>
        (case s of [] \<Rightarrow> None
         | x # xs \<Rightarrow> if (if ignorecase fl then lower x = lower c else x = c)
                     then k (Suc p, xs, caps) else None))"
| "re_m fl (Cls f) k st =
     (case st of (p, s, caps) \<Rightarrow>
        (case s of [] \<Rightarrow> None
         | x # xs \<Rightarrow> if (if ignorecase fl then f x \<or> f (lower x) \<or> f (upper x) else f x)
                     then k (Suc p, xs, caps) else None))"
| "re_m fl Dot k st =
     (case st of (p, s, caps) \<Rightarrow>
        (case s of [] \<Rightarrow> None
         | x # xs \<Rightarrow> if dotall fl \<or> x \<noteq> CHR 0x0A then k (Suc p, xs, caps) else None))"
| "re_m fl Eps k st = k st"
| "re_m fl Bol k st = (case st of (p, s, caps) \<Rightarrow> if p = 0 then k st else None)"
| "re_m fl Eol k st =
     (case st of (p, s, caps) \<Rightarrow> if s = [] \<or> s = [CHR 0x0A] then k st else None)"
| "re_m fl (Seq r1 r2) k st = re_m fl r1 (re_m fl r2 k) st"
| "re_m fl (Alt r1 r2) k st =
     (case re_m fl r1 k st of Some x \<Rightarrow> Some x | None \<Rightarrow> re_m fl r2 k st)"
| "re_m fl (Star greedy r) k st = star_m greedy (re_m fl r) k st"
| "re_m fl (Grp i r) k st =
     (case st of (p, s, caps) \<Rightarrow>
        re_m fl r (\<lambda>(p', s', caps'). k (p', s', (i, take (p' - p) s) # caps')) st)"
| "re_m fl (Look r) k st =
     (case re_m fl r Some st of
        None \<Rightarrow> None
      | Some (p', s', caps') \<Rightarrow> (case st of (p, s, caps) \<Rightarrow> k (p, s, caps')))"

text \<open>Pattern syntax on top of the constructors.\<close>

definition str :: "string \<Rightarrow> regex" where
  "str s = foldr (\<lambda>c r. Seq (Chr c) r) s Eps"

definition plus :: "bool \<Rightarrow> regex \<Rightarrow> regex" where
  "plus greedy r = Seq r (Star greedy r)"

definition opt :: "regex \<Rightarrow> regex" where
  "opt r = Alt r Eps"

primrec at_least :: "nat \<Rightarrow> bool \<Rightarrow> regex \<Rightarrow> regex" where
  "at_least 0 greedy r = Star greedy r"
| "at_least (Suc n) greedy r = Seq r (at_least n greedy r)"

fun seqs :: "regex list \<Rightarrow> regex" where
  "seqs [] = Eps"
| "seqs [r] = r"
| "seqs (r # rs) = Seq r (seqs rs)"

fun alts :: "regex list \<Rightarrow> regex" where
  "alts [] = Eps"
| "alts [r] = r"
| "alts (r # rs) = Alt r (alts rs)"

text \<open>
  A match is its start, its end and its groups.  \<open>search_from\<close> is the scan of \<open>re.search\<close>:
  the pattern is tried at each position from \<open>p\<close> on, the first success wins.  With
  \<open>must_advance\<close> an empty match at the first position is refused (the rule of
  \<open>findall\<close> and \<open>sub\<close> after an empty match).
\<close>

type_synonym rmatch = "nat \<times> nat \<times> (nat \<times> string) list"

fun search_from :: "flags \<Rightarrow> regex \<Rightarrow> bool \<Rightarrow> nat \<Rightarrow> string \<Rightarrow> rmatch option" where
  "search_from fl r must_advance p s =
     (case re_m fl r (\<lambda>(e, s', caps). if must_advance \<and> e = p then None else Some (e, s', caps))
                (p, s, []) of
        Some (e, s', caps) \<Rightarrow> Some (p, e, caps)
      | None \<Rightarrow> (case s of [] \<Rightarrow> None | c # cs \<Rightarrow> search_from fl r False (Suc p) cs))"

declare search_from.simps [simp del]

lemma search_from_Nil [simp, code]:
  "search_from fl r must_advance p [] =
     (case re_m fl r (\<lambda>(e, s', caps). if must_advance \<and> e = p then None else Some (e, s', caps))
                (p, [], []) of
        Some (e, s', caps) \<Rightarrow> Some (p, e, caps)
      | None \<Rightarrow> None)"
  by (subst search_from.simps) (simp split: option.splits)

lemma search_from_Cons [simp, code]:
  "search_from fl r must_advance p (c # cs) =
     (case re_m fl r (\<lambda>(e, s', caps). if must_advance \<and> e = p then None else Some (e, s', caps))
                (p, c # cs, []) of
        Some (e, s', caps) \<Rightarrow> Some (p, e, caps)
      | None \<Rightarrow> search_from fl r False (Suc p) cs)"
  by (subst search_from.simps) (simp split: option.splits)

definition re_search :: "flags \<Rightarrow> regex \<Rightarrow> string \<Rightarrow> rmatch option" where
  "re_search fl r text = search_from fl r False 0 text"

definition re_match :: "flags \<Rightarrow> regex \<Rightarrow> string \<Rightarrow> rmatch option" where
  "re_match fl r text =
     (case re_m fl r Some (0, text, []) of
        Some (e, s', caps) \<Rightarrow> Some (0, e, caps)
      | None \<Rightarrow> None)"

text \<open>
  \<open>m.group(i)\<close>.  Every group the scraper reads is a mandatory part of its pattern, so the
  \<open>None\<close> that Python gives for a group that took no part in the match does not arise; the
  model gives the empty string there.
\<close>

definition group :: "rmatch \<Rightarrow> nat \<Rightarrow> string" where
  "group m i = (case map_of (snd (snd m)) i of Some g \<Rightarrow> g | None \<Rightarrow> [])"

definition no_flags :: flags where
  "no_flags = \<lparr>ignorecase = False, dotall = False\<rparr>"

subsection \<open>The matcher only moves forward\<close>

definition adv :: "mstate \<Rightarrow> mstate \<Rightarrow> bool" where
  "adv st st' = (\<exists>w. fst (snd st) = w @ fst (snd st') \<and> fst st' = fst st + length w)"

lemma adv_refl: "adv st st"
  by (simp add: adv_def)

lemma adv_trans: "adv a b \<Longrightarrow> adv b c \<Longrightarrow> adv a c"
  by (auto simp: adv_def)

lemma adv_caps: "adv (p, s, c) (p', s', c') \<Longrightarrow> adv (p, s, d) (p', s', d')"
  by (simp add: adv_def)

lemma adv_step: "adv (p, x # xs, c) (Suc p, xs, c')"
  by (simp add: adv_def)

definition forward :: "(mcont \<Rightarrow> mcont) \<Rightarrow> bool" where
  "forward mr = (\<forall>k st x. mr k st = Some x \<longrightarrow> (\<exists>st'. adv st st' \<and> k st' = Some x))"

lemma forwardD: "forward mr \<Longrightarrow> mr k st = Some x \<Longrightarrow> \<exists>st'. adv st st' \<and> k st' = Some x"
  unfolding forward_def by (elim allE [of _ k] allE [of _ st] allE [of _ x]) simp

lemma forwardI:
  "(\<And>k st x. mr k st = Some x \<Longrightarrow> \<exists>st'. adv st st' \<and> k st' = Some x) \<Longrightarrow> forward mr"
  unfolding forward_def by simp

lemma star_m_forward_aux:
  "forward mr \<Longrightarrow> star_m g mr k st = Some x \<Longrightarrow> \<exists>st'. adv st st' \<and> k st' = Some x"
proof (induction g mr k st rule: star_m.induct)
  case (1 greedy mr k p s caps)
  let ?again = "\<lambda>(p', s', caps'). if length s' < length s
                                    then star_m greedy mr k (p', s', caps') else None"
  show ?case
  proof (cases "k (p, s, caps) = Some x")
    case True
    then show ?thesis using adv_refl by blast
  next
    case False
    from "1.prems"(2) False have again: "mr ?again (p, s, caps) = Some x"
      by (subst (asm) star_m.simps) (auto split: if_splits option.splits)
    from "1.prems"(2) False have lazy: "\<not> greedy \<Longrightarrow> k (p, s, caps) = None"
      by (subst (asm) star_m.simps) (auto split: if_splits option.splits)
    from forwardD [OF "1.prems"(1) again]
    obtain st1 where a1: "adv (p, s, caps) st1" and k1: "?again st1 = Some x"
      by blast
    obtain p1 s1 c1 where st1: "st1 = (p1, s1, c1)" by (cases st1) auto
    from k1 st1 have len: "length s1 < length s"
      and rec: "star_m greedy mr k (p1, s1, c1) = Some x"
      by (auto split: if_splits)
    have "\<exists>st2. adv (p1, s1, c1) st2 \<and> k st2 = Some x"
    proof (cases greedy)
      case True
      from "1.IH"(1) [OF True len "1.prems"(1) rec] show ?thesis .
    next
      case False
      from "1.IH"(2) [OF False lazy [OF False] len "1.prems"(1) rec] show ?thesis .
    qed
    then obtain st2 where "adv (p1, s1, c1) st2" "k st2 = Some x"
      by blast
    with a1 st1 show ?thesis using adv_trans by blast
  qed
qed

lemma star_m_forward: "forward mr \<Longrightarrow> forward (star_m g mr)"
  by (rule forwardI) (rule star_m_forward_aux)

lemma re_m_forward: "forward (re_m fl r)"
proof (induction r)
  case (Chr c)
  show ?case
  proof (rule forwardI)
    fix k st x assume h: "re_m fl (Chr c) k st = Some x"
    obtain p s caps where st: "st = (p, s, caps)" by (cases st) auto
    from h st obtain y ys where "s = y # ys" "k (Suc p, ys, caps) = Some x"
      by (auto split: list.splits if_splits)
    with st adv_step show "\<exists>st'. adv st st' \<and> k st' = Some x" by blast
  qed
next
  case (Cls f)
  show ?case
  proof (rule forwardI)
    fix k st x assume h: "re_m fl (Cls f) k st = Some x"
    obtain p s caps where st: "st = (p, s, caps)" by (cases st) auto
    from h st obtain y ys where "s = y # ys" "k (Suc p, ys, caps) = Some x"
      by (auto split: list.splits if_splits)
    with st adv_step show "\<exists>st'. adv st st' \<and> k st' = Some x" by blast
  qed
next
  case Dot
  show ?case
  proof (rule forwardI)
    fix k st x assume h: "re_m fl Dot k st = Some x"
    obtain p s caps where st: "st = (p, s, caps)" by (cases st) auto
    from h st obtain y ys where "s = y # ys" "k (Suc p, ys, caps) = Some x"
      by (auto split: list.splits if_splits)
    with st adv_step show "\<exists>st'. adv st st' \<and> k st' = Some x" by blast
  qed
next
  case Eps
  show ?case
  proof (rule forwardI)
    fix k st x assume "re_m fl Eps k st = Some x"
    then have "k st = Some x" by simp
    then show "\<exists>st'. adv st st' \<and> k st' = Some x" using adv_refl by blast
  qed
next
  case Bol
  show ?case
  proof (rule forwardI)
    fix k st x assume "re_m fl Bol k st = Some x"
    then have "k st = Some x" by (auto split: prod.splits if_splits)
    then show "\<exists>st'. adv st st' \<and> k st' = Some x" using adv_refl by blast
  qed
next
  case Eol
  show ?case
  proof (rule forwardI)
    fix k st x assume "re_m fl Eol k st = Some x"
    then have "k st = Some x" by (auto split: prod.splits if_splits)
    then show "\<exists>st'. adv st st' \<and> k st' = Some x" using adv_refl by blast
  qed
next
  case (Seq r1 r2)
  show ?case
  proof (rule forwardI)
    fix k st x assume "re_m fl (Seq r1 r2) k st = Some x"
    then have "re_m fl r1 (re_m fl r2 k) st = Some x" by simp
    from forwardD [OF Seq.IH(1) this]
    obtain st1 where a1: "adv st st1" and m2: "re_m fl r2 k st1 = Some x" by blast
    from forwardD [OF Seq.IH(2) m2]
    obtain st2 where "adv st1 st2" "k st2 = Some x" by blast
    with a1 show "\<exists>st'. adv st st' \<and> k st' = Some x" using adv_trans by blast
  qed
next
  case (Alt r1 r2)
  show ?case
  proof (rule forwardI)
    fix k st x assume "re_m fl (Alt r1 r2) k st = Some x"
    then have "re_m fl r1 k st = Some x \<or> re_m fl r2 k st = Some x"
      by (auto split: option.splits)
    then show "\<exists>st'. adv st st' \<and> k st' = Some x"
      using forwardD [OF Alt.IH(1)] forwardD [OF Alt.IH(2)] by blast
  qed
next
  case (Star g r)
  then show ?case by (simp add: star_m_forward)
next
  case (Grp i r)
  show ?case
  proof (rule forwardI)
    fix k st x assume h: "re_m fl (Grp i r) k st = Some x"
    obtain p s caps where st: "st = (p, s, caps)" by (cases st) auto
    let ?k = "\<lambda>(p', s', caps'). k (p', s', (i, take (p' - p) s) # caps')"
    from h st have "re_m fl r ?k st = Some x" by simp
    from forwardD [OF Grp.IH this]
    obtain st1 where a: "adv st st1" and k1: "?k st1 = Some x" by blast
    obtain p1 s1 c1 where st1: "st1 = (p1, s1, c1)" by (cases st1) auto
    from a st st1 have "adv st (p1, s1, (i, take (p1 - p) s) # c1)"
      by (simp add: adv_def)
    moreover from k1 st1 have "k (p1, s1, (i, take (p1 - p) s) # c1) = Some x" by simp
    ultimately show "\<exists>st'. adv st st' \<and> k st' = Some x" by blast
  qed
next
  case (Look r)
  show ?case
  proof (rule forwardI)
    fix k st x assume h: "re_m fl (Look r) k st = Some x"
    obtain p s caps where st: "st = (p, s, caps)" by (cases st) auto
    from h st obtain c' where "k (p, s, c') = Some x"
      by (auto split: option.splits)
    moreover have "adv st (p, s, c')" using st by (simp add: adv_def)
    ultimately show "\<exists>st'. adv st st' \<and> k st' = Some x" by blast
  qed
qed

lemma adv_bounds: "adv (p, s, c) (e, s', c') \<Longrightarrow> p \<le> e \<and> e \<le> p + length s"
proof -
  assume "adv (p, s, c) (e, s', c')"
  then obtain w where "s = w @ s'" "e = p + length w" by (auto simp: adv_def)
  then show ?thesis by simp
qed

lemma search_from_bounds:
  "search_from fl r ma p s = Some (st, e, caps) \<Longrightarrow>
     p \<le> st \<and> st \<le> e \<and> e \<le> p + length s \<and> (ma \<and> st = p \<longrightarrow> e \<noteq> p)"
proof (induction s arbitrary: p ma)
  case Nil
  let ?k = "\<lambda>(e, s', caps). if ma \<and> e = p then None else Some (e, s', caps)"
  from Nil have m: "re_m fl r ?k (p, [], []) = Some (e, [], caps) \<or>
                    (\<exists>s'. re_m fl r ?k (p, [], []) = Some (e, s', caps))" and "st = p"
    by (auto split: option.splits)
  then obtain s' where "re_m fl r ?k (p, [], []) = Some (e, s', caps)" by blast
  from forwardD [OF re_m_forward this]
  obtain st' where "adv (p, [], []) st'" "?k st' = Some (e, s', caps)" by blast
  then have "e = p" "\<not> (ma \<and> e = p)"
    by (auto simp: adv_def split: prod.splits if_splits)
  with \<open>st = p\<close> show ?case by simp
next
  case (Cons c cs)
  let ?k = "\<lambda>(e, s', caps). if ma \<and> e = p then None else Some (e, s', caps)"
  show ?case
  proof (cases "re_m fl r ?k (p, c # cs, [])")
    case None
    with Cons.prems have "search_from fl r False (Suc p) cs = Some (st, e, caps)"
      by simp
    from Cons.IH [OF this] show ?thesis by auto
  next
    case (Some y)
    obtain e' s' caps' where y: "y = (e', s', caps')" by (cases y) auto
    with Some Cons.prems have eq: "st = p" "e' = e" "caps' = caps" by auto
    from forwardD [OF re_m_forward Some]
    obtain st' where "adv (p, c # cs, []) st'" "?k st' = Some y" by blast
    with y eq have "adv (p, c # cs, []) (e, s', caps)" "\<not> (ma \<and> e = p)"
      by (auto split: prod.splits if_splits)
    with adv_bounds [of p "c # cs" "[]" e s' caps] eq show ?thesis by simp
  qed
qed

text \<open>
  \<open>finditer\<close>: the matches of \<open>re.findall\<close>, \<open>re.finditer\<close> and \<open>re.sub\<close>, left to right.
  The next search starts where the last match ended; after an empty match the next match at
  that position has to be non-empty.
\<close>

function finditer_from :: "flags \<Rightarrow> regex \<Rightarrow> bool \<Rightarrow> nat \<Rightarrow> string \<Rightarrow> rmatch list" where
  "finditer_from fl r must_advance p s =
     (case search_from fl r must_advance p s of
        None \<Rightarrow> []
      | Some m \<Rightarrow> (case m of (st, e, caps) \<Rightarrow>
          (st, e, caps) # finditer_from fl r (e = st) e (drop (e - p) s)))"
  by pat_completeness auto
termination
proof (relation "measures [\<lambda>(fl, r, ma, p, s). length s,
                           \<lambda>(fl, r, ma, p, s). if ma then 0 else 1]", goal_cases)
  case 1
  show ?case by simp
next
  case (2 fl r ma p s m st x e caps)
  then have "search_from fl r ma p s = Some (st, e, caps)" by simp
  from search_from_bounds [OF this]
  have b: "p \<le> st" "st \<le> e" "e \<le> p + length s" "ma \<and> st = p \<longrightarrow> e \<noteq> p" by auto
  show ?case
  proof (cases "e = p")
    case True
    with b have "st = p" "\<not> ma" by auto
    with True show ?thesis by simp
  next
    case False
    with b have "p < e" by auto
    with b show ?thesis by auto
  qed
qed

declare finditer_from.simps [simp del]

definition finditer :: "flags \<Rightarrow> regex \<Rightarrow> string \<Rightarrow> rmatch list" where
  "finditer fl r text = finditer_from fl r False 0 text"

text \<open>\<open>re.findall\<close> for a pattern with two groups: the pairs of group texts.\<close>

definition re_findall2 :: "flags \<Rightarrow> regex \<Rightarrow> string \<Rightarrow> (string \<times> string) list" where
  "re_findall2 fl r text = map (\<lambda>m. (group m 1, group m 2)) (finditer fl r text)"

text \<open>\<open>re.sub\<close> with a replacement text that has no group references.\<close>

fun sub_build :: "string \<Rightarrow> nat \<Rightarrow> string \<Rightarrow> rmatch list \<Rightarrow> string" where
  "sub_build repl p s [] = s"
| "sub_build repl p s ((st, e, caps) # ms) =
     take (st - p) s @ repl @ sub_build repl e (drop (e - p) s) ms"

definition re_sub :: "flags \<Rightarrow> regex \<Rightarrow> string \<Rightarrow> string \<Rightarrow> string" where
  "re_sub fl r repl text = sub_build repl 0 text (finditer fl r text)"

section \<open>Numbers and dates read from text\<close>

definition digit_val :: "char \<Rightarrow> int" where
  "digit_val c = int (length (takeWhile (\<lambda>d. d \<noteq> c) ''0123456789''))"

definition digits_val :: "string \<Rightarrow> int" where
  "digits_val ds = foldl (\<lambda>n c. 10 * n + digit_val c) 0 ds"

text \<open>
  \<open>int(s)\<close> in base ten: surrounding whitespace, an optional sign, then decimal digits, single
  underscores allowed between digits.  \<open>None\<close> is the \<open>ValueError\<close>.  (The interpreter's
  configurable limit on the number of digits is not modelled.)
\<close>

fun int_digits_ok :: "bool \<Rightarrow> string \<Rightarrow> bool" where
  "int_digits_ok after_digit [] = after_digit"
| "int_digits_ok after_digit (c # cs) =
     (if isdigit c then int_digits_ok True cs
      else c = CHR ''_'' \<and> after_digit \<and> int_digits_ok False cs)"

definition py_int :: "string \<Rightarrow> int option" where
  "py_int s =
     (let t = strip s;
          neg = (t \<noteq> [] \<and> hd t = CHR ''-'');
          body = (if t \<noteq> [] \<and> (hd t = CHR ''-'' \<or> hd t = CHR ''+'') then tl t else t)
      in if int_digits_ok False body
         then Some ((if neg then - 1 else 1) * digits_val (filter isdigit body))
         else None)"

text \<open>
  \<open>float(s)\<close> on the texts the patterns capture (\<open>\d+\.?\d*\<close>: digits, then optionally a
  point and more digits).  The value is the decimal number written; Python keeps the nearest
  double, and the model keeps the number itself.
\<close>

definition py_float :: "string \<Rightarrow> rat option" where
  "py_float s =
     (let ip = takeWhile isdigit s; rest = dropWhile isdigit s
      in if ip = [] then None
         else (case rest of
                 [] \<Rightarrow> Some (of_int (digits_val ip))
               | c # fr \<Rightarrow>
                   if c = CHR ''.'' \<and> list_all isdigit fr
                   then Some (of_int (digits_val (ip @ fr)) / of_int (10 ^ length fr))
                   else None))"

text \<open>Truthiness of an optional number: \<open>None\<close> and \<open>0\<close> are false.\<close>

definition truthy :: "int option \<Rightarrow> bool" where
  "truthy v = (case v of None \<Rightarrow> False | Some n \<Rightarrow> n \<noteq> 0)"

record date =
  year :: nat
  month :: nat
  day :: nat

definition is_leap :: "nat \<Rightarrow> bool" where
  "is_leap y = (y mod 4 = 0 \<and> (y mod 100 \<noteq> 0 \<or> y mod 400 = 0))"

definition days_in_month :: "nat \<Rightarrow> nat \<Rightarrow> nat" where
  "days_in_month y m =
     (if m = 2 then (if is_leap y then 29 else 28)
      else if m \<in> {4, 6, 9, 11} then 30 else 31)"

text \<open>
  \<open>datetime.strptime(s, '%b %d, %Y').date()\<close> in the C locale, as the standard library does
  it: the format becomes a regular expression (month names in lower case, a blank of the
  format standing for \<open>\s+\<close>), matched without regard to case at the start of \<open>s\<close>; the whole
  of \<open>s\<close> has to be used, and the day has to exist in the month.  \<open>None\<close> is the \<open>ValueError\<close>.
\<close>

definition month_names :: "string list" where
  "month_names = [''jan'', ''feb'', ''mar'', ''apr'', ''may'', ''jun'',
                  ''jul'', ''aug'', ''sep'', ''oct'', ''nov'', ''dec'']"

definition fl_ignorecase :: flags where
  "fl_ignorecase = \<lparr>ignorecase = True, dotall = False\<rparr>"

definition one_of :: "string \<Rightarrow> regex" where
  "one_of cs = Cls (\<lambda>c. c \<in> set cs)"

definition strptime_regex :: regex where
  "strptime_regex = seqs
     [Grp 1 (alts (map str month_names)),
      plus True (Cls isspace),
      Grp 2 (alts [Seq (Chr CHR ''3'') (one_of ''01''),
                   Seq (one_of ''12'') (Cls isdigit),
                   Seq (Chr CHR ''0'') (one_of ''123456789''),
                   one_of ''123456789'',
                   Seq (Chr CHR '' '') (one_of ''123456789'')]),
      Chr CHR '','',
      plus True (Cls isspace),
      Grp 3 (seqs [Cls isdigit, Cls isdigit, Cls isdigit, Cls isdigit])]"

definition month_index :: "string \<Rightarrow> nat" where
  "month_index name = Suc (length (takeWhile (\<lambda>n. n \<noteq> map lower name) month_names))"

definition strptime :: "string \<Rightarrow> date option" where
  "strptime s =
     (case re_match fl_ignorecase strptime_regex s of
        None \<Rightarrow> None
      | Some m \<Rightarrow>
          if fst (snd m) \<noteq> length s then None
          else (case py_int (group m 2) of
                  None \<Rightarrow> None
                | Some d \<Rightarrow>
                    let y = nat (digits_val (group m 3)); mo = month_index (group m 1)
                    in if 1 \<le> y \<and> 1 \<le> d \<and> d \<le> int (days_in_month y mo)
                       then Some \<lparr>year = y, month = mo, day = nat d\<rparr>
                       else None))"

section \<open>The scraper (\<open>ipoji_scrapper.py\<close>)\<close>

subsection \<open>\<open>extract_price\<close> and \<open>extract_dates\<close>\<close>

text \<open>
  \<open>extract_price\<close>: everything but digits, dashes and whitespace is removed; a text with a
  dash is a range when the dash splits it in exactly two parts, a text without one is a single
  price.  A \<open>ValueError\<close> of \<open>int\<close> ends in \<open>(None, None)\<close>.
\<close>

definition not_price_char :: "char \<Rightarrow> bool" where
  "not_price_char c = (\<not> (isdigit c \<or> c = CHR ''-'' \<or> isspace c))"

definition extract_price :: "string \<Rightarrow> int option \<times> int option" where
  "extract_price price_text =
     (if price_text = [] then (None, None)
      else
        let clean_price = re_sub no_flags (Cls not_price_char) [] (strip price_text)
        in if CHR ''-'' \<in> set clean_price then
             (case split CHR ''-'' clean_price of
                [a, b] \<Rightarrow>
                  (case py_int (strip a) of
                     None \<Rightarrow> (None, None)
                   | Some min_price \<Rightarrow>
                       (case py_int (strip b) of
                          None \<Rightarrow> (None, None)
                        | Some max_price \<Rightarrow> (Some min_price, Some max_price)))
              | _ \<Rightarrow> (None, None))
           else
             (case py_int (strip clean_price) of
                None \<Rightarrow> (None, None)
              | Some price \<Rightarrow> (Some price, Some price)))"

text \<open>The shape \<open>[A-Za-z]+ \d+, \d+\<close> of one date.\<close>

definition date_shape :: regex where
  "date_shape = seqs [plus True (Cls isalpha), Chr CHR '' '', plus True (Cls isdigit),
                      Chr CHR '','', Chr CHR '' '', plus True (Cls isdigit)]"

definition dates_pattern :: regex where
  "dates_pattern = seqs [Grp 1 date_shape, Star True (Cls isspace), Chr CHR ''-'',
                         Star True (Cls isspace), Grp 2 date_shape]"

definition extract_dates :: "string \<Rightarrow> date option \<times> date option" where
  "extract_dates date_text =
     (if date_text = [] then (None, None)
      else (case re_search no_flags dates_pattern date_text of
              None \<Rightarrow> (None, None)
            | Some date_match \<Rightarrow>
                (case strptime (group date_match 1) of
                   None \<Rightarrow> (None, None)
                 | Some start_date \<Rightarrow>
                     (case strptime (group date_match 2) of
                        None \<Rightarrow> (None, None)
                      | Some end_date \<Rightarrow> (Some start_date, Some end_date)))))"

subsection \<open>\<open>split_ipo_blocks_v2\<close>\<close>

definition fl_dotall_ignorecase :: flags where
  "fl_dotall_ignorecase = \<lparr>ignorecase = True, dotall = True\<rparr>"

definition block_pattern :: regex where
  "block_pattern = seqs
     [str ''Offer Date:'', Star True (Cls isspace),
      Grp 1 (seqs [date_shape, str '' - '', date_shape]),
      Grp 2 (Star False Dot),
      Look (Alt (str ''Offer Date:'') Eol)]"

definition join :: "string \<Rightarrow> string list \<Rightarrow> string" where
  "join sep xs = (case xs of [] \<Rightarrow> [] | y # ys \<Rightarrow> y @ concat (map (\<lambda>z. sep @ z) ys))"

text \<open>
  One pass of the loop over the matches: the non-empty stripped lines of the block, at most
  twenty of them, and the block text built from them, if there is a line.
\<close>

definition block_lines :: "string \<times> string \<Rightarrow> string list" where
  "block_lines dd =
     (let block = ''Offer Date: '' @ fst dd @ snd dd;
          lines = filter (\<lambda>l. l \<noteq> []) (map strip (split CHR 0x0A block))
      in take 20 lines)"

definition make_block :: "string \<times> string \<Rightarrow> string option" where
  "make_block dd =
     (let clean_lines = block_lines dd
      in if 1 \<le> length clean_lines then Some (join [CHR 0x0A] clean_lines) else None)"

definition split_ipo_blocks_v2 :: "string \<Rightarrow> string list" where
  "split_ipo_blocks_v2 text =
     List.map_filter make_block (re_findall2 fl_dotall_ignorecase block_pattern text)"

subsection \<open>\<open>parse_single_ipo_block\<close>\<close>

record ipo_data =
  company_name :: string
  offer_price_min :: "int option"
  offer_price_max :: "int option"
  lot_size :: "int option"
  subscription_times :: "rat option"
  expected_premium :: "rat option"
  premium_percentage :: "rat option"
  offer_start_date :: "date option"
  offer_end_date :: "date option"
  ipo_type :: string

definition initial_ipo_data :: ipo_data where
  "initial_ipo_data =
     \<lparr>company_name = ''Unknown Company'',
      offer_price_min = None, offer_price_max = None, lot_size = None,
      subscription_times = None, expected_premium = None, premium_percentage = None,
      offer_start_date = None, offer_end_date = None,
      ipo_type = ''Current''\<rparr>"

text \<open>The five \<open>name_patterns\<close>, in the order of the source.\<close>

definition name_char :: "char \<Rightarrow> bool" where
  "name_char c = (isalpha c \<or> isspace c \<or> c \<in> set ''&.-'')"

definition name_end :: regex where
  "name_end = Alt (Seq (Star True (Cls isspace)) Eol)
                  (seqs [Star True (Cls isspace), Cls isupper, Cls islower])"

definition suffix_words :: "string list" where
  "suffix_words = [''REIT'', ''Trust'', ''Limited'', ''Ltd'', ''Inc'', ''Corp'', ''Company'',
     ''Group'', ''Holdings'', ''Ventures'', ''Industries'', ''Systems'', ''Solutions'',
     ''Technologies'', ''Healthcare'', ''Plastics'', ''Cement'', ''Lab'', ''Cast'', ''Cinemas'']"

definition name_patterns :: "regex list" where
  "name_patterns =
     [seqs [str ''Check Allotment'', Star True (Cls isspace),
            Grp 1 (Seq (Cls isalpha) (at_least 2 False (Cls name_char))), name_end],
      seqs [str ''View Check Allotment'', Star True (Cls isspace),
            Grp 1 (Seq (Cls isalpha) (at_least 2 False (Cls name_char))), name_end],
      seqs [str ''Allotment'', Star False (Cls (\<lambda>c. isalpha c \<or> isspace c)),
            plus True (Cls isspace),
            Grp 1 (Seq (Cls isupper) (at_least 3 False (Cls name_char))), name_end],
      seqs [alts [str ''View Apply'', str ''Check Allotment'', str ''Allotment Awaited''],
            Star False Dot,
            Grp 1 (seqs [Cls isupper, plus True (Cls name_char),
                         opt (alts (map str suffix_words))]),
            Seq (Star True (Cls isspace)) Eol],
      seqs [Grp 1 (seqs [Cls isupper, plus True (Cls isalpha),
                         Star True (seqs [plus True (Cls isspace),
                                          Cls (\<lambda>c. isupper c \<or> c = CHR ''&''),
                                          plus True (Cls isalpha)]),
                         Seq (plus True (Cls isspace)) (alts (map str suffix_words))]),
            Seq (Star True (Cls isspace)) Eol]]"

definition edge_char :: "char \<Rightarrow> bool" where
  "edge_char c = (c = CHR ''.'' \<or> c = CHR ''-'' \<or> isspace c)"

definition numeric_char :: "char \<Rightarrow> bool" where
  "numeric_char c = (isdigit c \<or> isspace c \<or> c = CHR ''-'' \<or> c = CHR ''.'')"

text \<open>The clean-up of a candidate name, and the test that accepts it.\<close>

definition clean_name :: "string \<Rightarrow> string" where
  "clean_name g =
     re_sub no_flags (Alt (Seq Bol (plus True (Cls edge_char)))
                          (Seq (plus True (Cls edge_char)) Eol)) []
       (re_sub no_flags (plus True (Cls isspace)) '' '' (strip g))"

definition valid_name :: "string \<Rightarrow> bool" where
  "valid_name name =
     (3 < length name \<and>
      re_match no_flags (seqs [Bol, plus True (Cls numeric_char), Eol]) name = None)"

text \<open>The loop over the patterns: the first valid candidate is kept (\<open>break\<close>).\<close>

fun first_name :: "regex list \<Rightarrow> string \<Rightarrow> string option" where
  "first_name [] full_text = None"
| "first_name (pattern # patterns) full_text =
     (case re_search no_flags pattern full_text of
        None \<Rightarrow> first_name patterns full_text
      | Some name_match \<Rightarrow>
          let name = clean_name (group name_match 1)
          in if valid_name name then Some name
             else first_name patterns full_text)"

definition name_step :: "string \<Rightarrow> ipo_data \<Rightarrow> ipo_data" where
  "name_step full_text d =
     (case first_name name_patterns full_text of
        None \<Rightarrow> d
      | Some name \<Rightarrow> d\<lparr>company_name := name\<rparr>)"

definition offer_date_pattern :: regex where
  "offer_date_pattern = seqs [str ''Offer Date:'', Star True (Cls isspace),
                              Grp 1 (seqs [date_shape, str '' - '', date_shape])]"

definition dates_step :: "string \<Rightarrow> ipo_data \<Rightarrow> ipo_data" where
  "dates_step full_text d =
     (case re_search no_flags offer_date_pattern full_text of
        None \<Rightarrow> d
      | Some date_match \<Rightarrow>
          (case extract_dates (group date_match 1) of
             (start_date, end_date) \<Rightarrow>
               d\<lparr>offer_start_date := start_date, offer_end_date := end_date\<rparr>))"

definition digits_range :: regex where
  "digits_range = Seq (plus True (Cls isdigit))
                      (opt (Seq (Chr CHR ''-'') (plus True (Cls isdigit))))"

definition price_pattern :: regex where
  "price_pattern = Seq (str ''Offer Price'') (Grp 1 digits_range)"

definition price_step :: "string \<Rightarrow> ipo_data \<Rightarrow> ipo_data" where
  "price_step full_text d =
     (case re_search no_flags price_pattern full_text of
        None \<Rightarrow> d
      | Some price_match \<Rightarrow>
          (case extract_price (group price_match 1) of
             (min_price, max_price) \<Rightarrow>
               if truthy min_price
               then d\<lparr>offer_price_min := min_price, offer_price_max := max_price\<rparr>
               else d))"

definition lot_pattern :: regex where
  "lot_pattern = Seq (str ''Lot Size'') (Grp 1 (plus True (Cls isdigit)))"

definition lot_step :: "string \<Rightarrow> ipo_data \<Rightarrow> ipo_data" where
  "lot_step full_text d =
     (case re_search no_flags lot_pattern full_text of
        None \<Rightarrow> d
      | Some lot_match \<Rightarrow>
          (case py_int (group lot_match 1) of
             None \<Rightarrow> d
           | Some n \<Rightarrow> d\<lparr>lot_size := Some n\<rparr>))"

definition decimal :: regex where
  "decimal = seqs [plus True (Cls isdigit), opt (Chr CHR ''.''), Star True (Cls isdigit)]"

definition sub_patterns :: "regex list" where
  "sub_patterns =
     [seqs [Grp 1 decimal, Star True (Cls isspace), str ''times''],
      seqs [str ''No of Apps:'', Star True (Cls (\<lambda>c. c \<noteq> CHR ''|'')), Chr CHR ''|'',
            Star True (Cls isspace), Grp 1 decimal, Star True (Cls isspace), str ''times'']]"

text \<open>The loop over \<open>sub_patterns\<close>: the first pattern that matches and converts is kept.\<close>

fun first_subscription :: "regex list \<Rightarrow> string \<Rightarrow> rat option" where
  "first_subscription [] full_text = None"
| "first_subscription (pattern # patterns) full_text =
     (case re_search fl_ignorecase pattern full_text of
        None \<Rightarrow> first_subscription patterns full_text
      | Some sub_match \<Rightarrow>
          (case py_float (group sub_match 1) of
             Some v \<Rightarrow> Some v
           | None \<Rightarrow> first_subscription patterns full_text))"

definition subscription_step :: "string \<Rightarrow> ipo_data \<Rightarrow> ipo_data" where
  "subscription_step full_text d =
     (case first_subscription sub_patterns full_text of
        None \<Rightarrow> d
      | Some v \<Rightarrow> d\<lparr>subscription_times := Some v\<rparr>)"

definition premium_pattern :: regex where
  "premium_pattern = seqs
     [str ''Exp. Premium'', Grp 1 digits_range,
      Star True (Cls (\<lambda>c. c \<noteq> CHR ''('')), Chr CHR ''('',
      Grp 2 decimal, Chr CHR ''%'', Chr CHR '')'']"

text \<open>
  The premium of a captured range text.  A text with a dash splits in at least two parts, so
  the second part read by the source is always there; the last case below is never taken.
\<close>

definition avg_premium :: "string \<Rightarrow> rat option" where
  "avg_premium premium_range =
     (if CHR ''-'' \<in> set premium_range then
        (case split CHR ''-'' premium_range of
           a # b # rest \<Rightarrow>
             (case py_int a of
                None \<Rightarrow> None
              | Some min_prem \<Rightarrow>
                  (case py_int b of
                     None \<Rightarrow> None
                   | Some max_prem \<Rightarrow> Some (of_int (min_prem + max_prem) / 2)))
         | _ \<Rightarrow> None)
      else map_option of_int (py_int premium_range))"

definition premium_step :: "string \<Rightarrow> ipo_data \<Rightarrow> ipo_data" where
  "premium_step full_text d =
     (case re_search no_flags premium_pattern full_text of
        None \<Rightarrow> d
      | Some prem_match \<Rightarrow>
          (case py_float (group prem_match 2) of
             None \<Rightarrow> d
           | Some percentage \<Rightarrow>
               (case avg_premium (group prem_match 1) of
                  None \<Rightarrow> d
                | Some avg \<Rightarrow>
                    d\<lparr>expected_premium := Some avg, premium_percentage := Some percentage\<rparr>)))"

text \<open>All fields are attempted, then the record is returned or refused.\<close>

definition extract_fields :: "string \<Rightarrow> ipo_data" where
  "extract_fields full_text =
     premium_step full_text (subscription_step full_text (lot_step full_text
       (price_step full_text (dates_step full_text (name_step full_text initial_ipo_data)))))"

definition parse_single_ipo_block :: "string \<Rightarrow> ipo_data option" where
  "parse_single_ipo_block block_text =
     (let d = extract_fields (strip block_text)
      in if truthy (offer_price_min d) \<and> truthy (lot_size d) then Some d else None)"

subsection \<open>\<open>parse_ipo_data\<close>\<close>

record ipo_record = ipo_data +
  investment_per_lot :: int

text \<open>\<open>int(x)\<close> of a number: the fraction is cut off.\<close>

definition py_trunc :: "rat \<Rightarrow> int" where
  "py_trunc x = (if 0 \<le> x then \<lfloor>x\<rfloor> else \<lceil>x\<rceil>)"

text \<open>
  The amount per lot, from the two prices and the lot size of an accepted record.  The source
  computes it in floating point; the model computes the same expression exactly, which is what
  the source gets as long as the product stays below \<open>2 ^ 53\<close>.  A missing price or lot size
  would raise a \<open>TypeError\<close>, which skips the block (\<open>None\<close>).
\<close>

definition investment :: "ipo_data \<Rightarrow> int option" where
  "investment d =
     (case (offer_price_min d, lot_size d) of
        (Some pmin, Some lot) \<Rightarrow>
          let pmax = (case offer_price_max d of
                        Some m \<Rightarrow> if m \<noteq> 0 then m else pmin
                      | None \<Rightarrow> pmin);
              avg_price = of_int (pmin + pmax) / 2
          in Some (py_trunc (avg_price * of_int lot))
      | _ \<Rightarrow> None)"

definition process_block :: "string \<Rightarrow> ipo_record option" where
  "process_block block =
     (case parse_single_ipo_block block of
        None \<Rightarrow> None
      | Some d \<Rightarrow>
          (case investment d of
             None \<Rightarrow> None
           | Some v \<Rightarrow> Some (ipo_data.extend d (ipo_record.fields v))))"

text \<open>\<open>page_text\<close> is the text of the page, \<open>soup.get_text()\<close> in the source.\<close>

definition parse_ipo_data :: "string \<Rightarrow> ipo_record list" where
  "parse_ipo_data page_text = List.map_filter process_block (split_ipo_blocks_v2 page_text)"

section \<open>Facts about the matcher\<close>

text \<open>The equations of the repetition on a text that is empty or not, for evaluation.\<close>

lemma star_m_Nil [code]:
  "star_m g mr k (p, [], caps) =
     (if g then
        (case mr (\<lambda>(p', s', caps'). if length s' < length ([] :: string)
                                      then star_m g mr k (p', s', caps') else None)
                 (p, [], caps) of
           Some x \<Rightarrow> Some x
         | None \<Rightarrow> k (p, [], caps))
      else
        (case k (p, [], caps) of
           Some x \<Rightarrow> Some x
         | None \<Rightarrow> mr (\<lambda>(p', s', caps'). if length s' < length ([] :: string)
                                             then star_m g mr k (p', s', caps') else None)
                        (p, [], caps)))"
  by (rule star_m.simps)

lemma star_m_Cons [code]:
  "star_m g mr k (p, c # cs, caps) =
     (if g then
        (case mr (\<lambda>(p', s', caps'). if length s' < length (c # cs)
                                      then star_m g mr k (p', s', caps') else None)
                 (p, c # cs, caps) of
           Some x \<Rightarrow> Some x
         | None \<Rightarrow> k (p, c # cs, caps))
      else
        (case k (p, c # cs, caps) of
           Some x \<Rightarrow> Some x
         | None \<Rightarrow> mr (\<lambda>(p', s', caps'). if length s' < length (c # cs)
                                             then star_m g mr k (p', s', caps') else None)
                        (p, c # cs, caps)))"
  by (rule star_m.simps)

text \<open>A literal text at the head of a pattern: the text has to start with it.\<close>

fun lit_prefix :: "flags \<Rightarrow> string \<Rightarrow> string \<Rightarrow> bool" where
  "lit_prefix fl [] s = True"
| "lit_prefix fl (c # cs) [] = False"
| "lit_prefix fl (c # cs) (x # xs) =
     ((if ignorecase fl then lower x = lower c else x = c) \<and> lit_prefix fl cs xs)"

lemma re_m_str:
  "re_m fl (str lit) k (p, s, caps) =
     (if lit_prefix fl lit s then k (p + length lit, drop (length lit) s, caps) else None)"
proof (induction lit arbitrary: p s)
  case Nil
  show ?case by (simp add: str_def)
next
  case (Cons c cs)
  have unfold: "str (c # cs) = Seq (Chr c) (str cs)" by (simp add: str_def)
  show ?case
  proof (cases s)
    case Nil
    then show ?thesis by (simp add: unfold)
  next
    case (Cons x xs)
    then show ?thesis using Cons.IH [of "Suc p" xs] by (simp add: unfold)
  qed
qed

lemma lit_prefix_no_flags: "lit_prefix no_flags lit s = prefix lit s"
  by (induction no_flags lit s rule: lit_prefix.induct) (auto simp: no_flags_def)

text \<open>Where a text occurs, with the letter case of the flags.\<close>

fun occurs :: "flags \<Rightarrow> string \<Rightarrow> string \<Rightarrow> bool" where
  "occurs fl lit [] = lit_prefix fl lit []"
| "occurs fl lit (c # cs) = (lit_prefix fl lit (c # cs) \<or> occurs fl lit cs)"

lemma occurs_iff: "occurs fl lit s = (\<exists>i \<le> length s. lit_prefix fl lit (drop i s))"
proof (induction s)
  case Nil
  show ?case by simp
next
  case (Cons c cs)
  show ?case
  proof
    assume "occurs fl lit (c # cs)"
    then have "lit_prefix fl lit (drop 0 (c # cs)) \<or>
               (\<exists>i \<le> length cs. lit_prefix fl lit (drop (Suc i) (c # cs)))"
      using Cons.IH by simp
    then show "\<exists>i \<le> length (c # cs). lit_prefix fl lit (drop i (c # cs))"
      by (metis Suc_le_mono le0 length_Cons)
  next
    assume "\<exists>i \<le> length (c # cs). lit_prefix fl lit (drop i (c # cs))"
    then obtain i where i: "i \<le> length (c # cs)" "lit_prefix fl lit (drop i (c # cs))"
      by blast
    show "occurs fl lit (c # cs)"
    proof (cases i)
      case 0
      with i show ?thesis by simp
    next
      case (Suc j)
      with i have "j \<le> length cs" "lit_prefix fl lit (drop j cs)" by auto
      with Cons.IH show ?thesis by auto
    qed
  qed
qed

lemma occurs_no_flags: "occurs no_flags lit s = sublist lit s"
proof (induction s)
  case Nil
  show ?case by (simp add: lit_prefix_no_flags)
next
  case (Cons c cs)
  then show ?case
    by (simp add: lit_prefix_no_flags sublist_Cons_right)
qed

lemma search_from_str_None:
  "\<not> occurs fl lit s \<Longrightarrow> search_from fl (Seq (str lit) r) ma p s = None"
proof (induction s arbitrary: p ma)
  case Nil
  then show ?case by (simp add: re_m_str)
next
  case (Cons c cs)
  then have "\<not> lit_prefix fl lit (c # cs)" "\<not> occurs fl lit cs"
    by simp_all
  with Cons.IH show ?case by (simp add: re_m_str)
qed

lemma sublist_strip: "sublist (strip t) t"
proof -
  let ?a = "dropWhile isspace t"
  have "prefix (strip t) ?a"
    unfolding strip_def
    by (metis rev_rev_ident suffix_dropWhile suffix_to_prefix)
  then have "sublist (strip t) ?a" by (rule prefix_imp_sublist)
  moreover have "sublist ?a t"
    by (rule suffix_imp_sublist) (rule suffix_dropWhile)
  ultimately show ?thesis by (rule sublist_order.order_trans)
qed

text \<open>\<open>re.sub\<close> of a single character class: each character of the class is replaced.\<close>

lemma search_from_Cls:
  "search_from no_flags (Cls f) ma p s =
     (if \<exists>c \<in> set s. f c
      then Some (p + length (takeWhile (\<lambda>c. \<not> f c) s),
                 Suc (p + length (takeWhile (\<lambda>c. \<not> f c) s)), [])
      else None)"
proof (induction s arbitrary: p ma)
  case Nil
  show ?case by simp
next
  case (Cons c cs)
  show ?case
  proof (cases "f c")
    case True
    then show ?thesis by (simp add: no_flags_def)
  next
    case False
    then show ?thesis using Cons.IH [of False "Suc p"] by (simp add: no_flags_def)
  qed
qed

lemma concat_keep:
  "\<forall>x \<in> set xs. \<not> f x \<Longrightarrow> concat (map (\<lambda>c. if f c then repl else [c]) xs) = xs"
  by (induction xs) auto

lemma sub_build_Cls:
  "sub_build repl p s (finditer_from no_flags (Cls f) ma p s) =
     concat (map (\<lambda>c. if f c then repl else [c]) s)"
proof (induction "length s" arbitrary: s p ma rule: less_induct)
  case less
  show ?case
  proof (cases "\<exists>c \<in> set s. f c")
    case False
    then have "finditer_from no_flags (Cls f) ma p s = []"
      by (subst finditer_from.simps) (simp add: search_from_Cls)
    moreover from False have "concat (map (\<lambda>c. if f c then repl else [c]) s) = s"
      by (intro concat_keep) simp
    ultimately show ?thesis by simp
  next
    case True
    let ?pre = "takeWhile (\<lambda>c. \<not> f c) s"
    let ?n = "length ?pre"
    from True have dw: "dropWhile (\<lambda>c. \<not> f c) s \<noteq> []" by (simp add: dropWhile_eq_Nil_conv)
    then obtain c rest where cr: "dropWhile (\<lambda>c. \<not> f c) s = c # rest"
      by (cases "dropWhile (\<lambda>c. \<not> f c) s") auto
    then have fc: "f c" using hd_dropWhile [of "\<lambda>c. \<not> f c" s] dw by auto
    have s: "s = ?pre @ c # rest" using cr takeWhile_dropWhile_id [of "\<lambda>c. \<not> f c" s] by simp
    have drop: "drop (Suc ?n) s = rest"
      by (subst s) simp
    have tk: "take ?n s = ?pre"
      by (subst s) simp
    have len: "length rest < length s" by (subst s) simp
    have fi: "finditer_from no_flags (Cls f) ma p s =
        (p + ?n, Suc (p + ?n), []) # finditer_from no_flags (Cls f) False (Suc (p + ?n)) rest"
      using True drop by (subst finditer_from.simps) (simp add: search_from_Cls)
    have pre: "concat (map (\<lambda>c. if f c then repl else [c]) ?pre) = ?pre"
      by (intro concat_keep) (auto dest: set_takeWhileD)
    have "sub_build repl p s (finditer_from no_flags (Cls f) ma p s) =
            ?pre @ repl @ sub_build repl (Suc (p + ?n)) rest
               (finditer_from no_flags (Cls f) False (Suc (p + ?n)) rest)"
      using drop tk by (simp add: fi)
    also have "\<dots> = ?pre @ repl @ concat (map (\<lambda>c. if f c then repl else [c]) rest)"
      using less [OF len] by simp
    also have "\<dots> = concat (map (\<lambda>c. if f c then repl else [c]) (?pre @ c # rest))"
      using pre fc by simp
    finally show ?thesis using s by simp
  qed
qed

lemma re_sub_Cls: "re_sub no_flags (Cls f) [] s = filter (\<lambda>c. \<not> f c) s"
proof -
  have "concat (map (\<lambda>c. if f c then [] else [c]) s) = filter (\<lambda>c. \<not> f c) s"
    by (induction s) auto
  then show ?thesis by (simp add: re_sub_def finditer_def sub_build_Cls)
qed

text \<open>What a repetition of a character class may consume.\<close>

lemma star_cls:
  "star_m g (re_m no_flags (Cls f)) k (p, s, caps) = Some x \<Longrightarrow>
     \<exists>n \<le> length (takeWhile f s). k (p + n, drop n s, caps) = Some x"
proof (induction s arbitrary: p)
  case Nil
  then have "k (p, [], caps) = Some x"
    by (subst (asm) star_m.simps) (auto split: if_splits option.splits)
  then show ?case by simp
next
  case (Cons c cs)
  show ?case
  proof (cases "k (p, c # cs, caps) = Some x")
    case True
    then have "k (p + 0, drop 0 (c # cs), caps) = Some x" by simp
    then show ?thesis by blast
  next
    case False
    with Cons.prems have fc: "f c" and rec: "star_m g (re_m no_flags (Cls f)) k (Suc p, cs, caps) = Some x"
      by (subst (asm) star_m.simps; auto simp: no_flags_def split: if_splits option.splits)+
    from Cons.IH [OF rec] obtain n where "n \<le> length (takeWhile f cs)"
      "k (Suc p + n, drop n cs, caps) = Some x" by blast
    with fc have "Suc n \<le> length (takeWhile f (c # cs))"
      "k (p + Suc n, drop (Suc n) (c # cs), caps) = Some x" by simp_all
    then show ?thesis by blast
  qed
qed

lemma take_takeWhile_all: "n \<le> length (takeWhile f s) \<Longrightarrow> list_all f (take n s)"
proof (induction s arbitrary: n)
  case Nil
  then show ?case by simp
next
  case (Cons c cs)
  then show ?case by (cases n) (auto split: if_splits)
qed

lemma search_from_SomeD:
  "search_from fl r False p s = Some (st, e, caps) \<Longrightarrow>
     \<exists>i \<le> length s. st = p + i \<and> (\<exists>s'. re_m fl r Some (st, drop i s, []) = Some (e, s', caps))"
proof (induction s arbitrary: p)
  case Nil
  have k: "(\<lambda>(e, s', caps). if False \<and> e = p then None else Some (e, s', caps)) = Some"
    by auto
  from Nil show ?case by (auto simp: k split: option.splits)
next
  case (Cons c cs)
  have k: "(\<lambda>(e, s', caps). if False \<and> e = p then None else Some (e, s', caps)) = Some"
    by auto
  show ?case
  proof (cases "re_m fl r Some (p, c # cs, [])")
    case None
    with Cons.prems have "search_from fl r False (Suc p) cs = Some (st, e, caps)"
      by (simp add: k)
    from Cons.IH [OF this] obtain i where "i \<le> length cs" "st = Suc p + i"
      "\<exists>s'. re_m fl r Some (st, drop i cs, []) = Some (e, s', caps)" by blast
    then have "Suc i \<le> length (c # cs)" "st = p + Suc i"
      "\<exists>s'. re_m fl r Some (st, drop (Suc i) (c # cs), []) = Some (e, s', caps)" by simp_all
    then show ?thesis by blast
  next
    case (Some y)
    with Cons.prems have "st = p" "\<exists>s'. y = (e, s', caps)"
      by (auto simp: k split: prod.splits)
    with Some have "0 \<le> length (c # cs)" "st = p + 0"
      "\<exists>s'. re_m fl r Some (st, drop 0 (c # cs), []) = Some (e, s', caps)" by auto
    then show ?thesis by blast
  qed
qed

section \<open>Facts about strings and numbers\<close>

lemma isdigit_props: "isdigit c \<Longrightarrow> \<not> isspace c \<and> c \<noteq> CHR ''-'' \<and> c \<noteq> CHR ''+'' \<and> c \<noteq> CHR ''_''"
  by (auto simp: isdigit_def isspace_def)

lemma strip_id: "\<forall>c \<in> set s. \<not> isspace c \<Longrightarrow> strip s = s"
proof -
  assume h: "\<forall>c \<in> set s. \<not> isspace c"
  have a: "dropWhile isspace s = s"
    using h by (cases s) auto
  have "dropWhile isspace (rev s) = rev s"
    using h by (cases "rev s") (auto simp: rev_eq_Cons_iff)
  with a show ?thesis by (simp add: strip_def)
qed

lemma set_strip: "set (strip s) \<subseteq> set s"
  using sublist_strip [of s] by (rule set_mono_sublist)

lemma digit_val_nonneg: "0 \<le> digit_val c"
  by (simp add: digit_val_def)

lemma foldl_digits_nonneg: "0 \<le> n \<Longrightarrow> 0 \<le> foldl (\<lambda>n c. 10 * n + digit_val c) n ds"
proof (induction ds arbitrary: n)
  case Nil
  then show ?case by simp
next
  case (Cons d ds)
  have "0 \<le> 10 * n + digit_val d" using Cons.prems digit_val_nonneg [of d] by simp
  from Cons.IH [OF this] show ?case by simp
qed

lemma digits_val_nonneg: "0 \<le> digits_val ds"
  by (simp add: digits_val_def foldl_digits_nonneg)

lemma int_digits_ok_digits: "list_all isdigit ds \<Longrightarrow> int_digits_ok b ds = (b \<or> ds \<noteq> [])"
  by (induction ds arbitrary: b) auto

lemma py_int_digits:
  assumes "ds \<noteq> []" "list_all isdigit ds"
  shows "py_int ds = Some (digits_val ds)"
proof -
  from assms(2) have nosp: "\<forall>c \<in> set ds. \<not> isspace c"
    by (auto simp: list_all_iff dest: isdigit_props)
  then have st: "strip ds = ds" by (rule strip_id)
  from assms have hd: "hd ds \<noteq> CHR ''-''" "hd ds \<noteq> CHR ''+''"
    by (cases ds; auto dest: isdigit_props)+
  from assms(2) have fl: "filter isdigit ds = ds" by (simp add: list_all_iff)
  from assms show ?thesis
    by (simp add: py_int_def st hd fl int_digits_ok_digits Let_def)
qed

lemma py_int_nonneg:
  assumes "py_int s = Some n" "CHR ''-'' \<notin> set s"
  shows "0 \<le> n"
proof -
  from assms(2) set_strip [of s] have "CHR ''-'' \<notin> set (strip s)" by auto
  then have "\<not> (strip s \<noteq> [] \<and> hd (strip s) = CHR ''-'')"
    by (cases "strip s") auto
  with assms(1) have "n = digits_val (filter isdigit
      (if strip s \<noteq> [] \<and> (hd (strip s) = CHR ''-'' \<or> hd (strip s) = CHR ''+'')
       then tl (strip s) else strip s))"
    by (auto simp: py_int_def Let_def split: if_splits)
  then show ?thesis by (simp add: digits_val_nonneg)
qed

lemma split_acc_no_sep: "sep \<notin> set s \<Longrightarrow> split_acc sep acc s = [rev acc @ s]"
  by (induction s arbitrary: acc) auto

lemma split_acc_sep:
  "sep \<notin> set x \<Longrightarrow> split_acc sep acc (x @ sep # y) = (rev acc @ x) # split_acc sep [] y"
  by (induction x arbitrary: acc) auto

lemma split_pair:
  "sep \<notin> set x \<Longrightarrow> sep \<notin> set y \<Longrightarrow> split sep (x @ sep # y) = [x, y]"
  by (simp add: split_def split_acc_sep split_acc_no_sep)

lemma split_single: "sep \<notin> set x \<Longrightarrow> split sep x = [x]"
  by (simp add: split_def split_acc_no_sep)

lemma split_acc_pieces:
  "w \<in> set (split_acc sep acc s) \<Longrightarrow> sep \<notin> set acc \<Longrightarrow> sep \<notin> set w"
proof (induction s arbitrary: acc)
  case Nil
  then show ?case by auto
next
  case (Cons c cs)
  show ?case
  proof (cases "c = sep")
    case True
    with Cons.prems have "w = rev acc \<or> w \<in> set (split_acc sep [] cs)" by auto
    then show ?thesis
    proof
      assume "w = rev acc"
      with Cons.prems(2) show ?thesis by simp
    next
      assume "w \<in> set (split_acc sep [] cs)"
      from Cons.IH [OF this] show ?thesis by simp
    qed
  next
    case False
    with Cons.prems have "w \<in> set (split_acc sep (c # acc) cs)" "sep \<notin> set (c # acc)"
      by auto
    then show ?thesis by (rule Cons.IH)
  qed
qed

lemma split_pieces: "w \<in> set (split sep s) \<Longrightarrow> sep \<notin> set w"
  using split_acc_pieces [of w sep "[]" s] by (simp add: split_def)

lemma split_acc_nonempty: "1 \<le> length (split_acc sep acc s)"
  by (induction s arbitrary: acc) auto

lemma split_acc_length: "sep \<in> set s \<Longrightarrow> 2 \<le> length (split_acc sep acc s)"
proof (induction s arbitrary: acc)
  case Nil
  then show ?case by simp
next
  case (Cons c cs)
  show ?case
  proof (cases "c = sep")
    case True
    with split_acc_nonempty [of sep "[]" cs] show ?thesis by simp
  next
    case False
    with Cons show ?thesis by simp
  qed
qed

section \<open>Facts about the extraction steps\<close>

text \<open>Each step writes its own fields only, so a field of the result comes from one step.\<close>

lemma name_step_frame [simp]:
  "offer_price_min (name_step t d) = offer_price_min d"
  "offer_price_max (name_step t d) = offer_price_max d"
  "lot_size (name_step t d) = lot_size d"
  "subscription_times (name_step t d) = subscription_times d"
  "expected_premium (name_step t d) = expected_premium d"
  "premium_percentage (name_step t d) = premium_percentage d"
  "offer_start_date (name_step t d) = offer_start_date d"
  "offer_end_date (name_step t d) = offer_end_date d"
  "ipo_type (name_step t d) = ipo_type d"
  by (simp_all add: name_step_def split: option.splits prod.splits)

lemma dates_step_frame [simp]:
  "company_name (dates_step t d) = company_name d"
  "offer_price_min (dates_step t d) = offer_price_min d"
  "offer_price_max (dates_step t d) = offer_price_max d"
  "lot_size (dates_step t d) = lot_size d"
  "subscription_times (dates_step t d) = subscription_times d"
  "expected_premium (dates_step t d) = expected_premium d"
  "premium_percentage (dates_step t d) = premium_percentage d"
  "ipo_type (dates_step t d) = ipo_type d"
  by (simp_all add: dates_step_def split: option.splits prod.splits)

lemma price_step_frame [simp]:
  "company_name (price_step t d) = company_name d"
  "lot_size (price_step t d) = lot_size d"
  "subscription_times (price_step t d) = subscription_times d"
  "expected_premium (price_step t d) = expected_premium d"
  "premium_percentage (price_step t d) = premium_percentage d"
  "offer_start_date (price_step t d) = offer_start_date d"
  "offer_end_date (price_step t d) = offer_end_date d"
  "ipo_type (price_step t d) = ipo_type d"
  by (simp_all add: price_step_def split: option.splits prod.splits)

lemma lot_step_frame [simp]:
  "company_name (lot_step t d) = company_name d"
  "offer_price_min (lot_step t d) = offer_price_min d"
  "offer_price_max (lot_step t d) = offer_price_max d"
  "subscription_times (lot_step t d) = subscription_times d"
  "expected_premium (lot_step t d) = expected_premium d"
  "premium_percentage (lot_step t d) = premium_percentage d"
  "offer_start_date (lot_step t d) = offer_start_date d"
  "offer_end_date (lot_step t d) = offer_end_date d"
  "ipo_type (lot_step t d) = ipo_type d"
  by (simp_all add: lot_step_def split: option.splits prod.splits)

lemma subscription_step_frame [simp]:
  "company_name (subscription_step t d) = company_name d"
  "offer_price_min (subscription_step t d) = offer_price_min d"
  "offer_price_max (subscription_step t d) = offer_price_max d"
  "lot_size (subscription_step t d) = lot_size d"
  "expected_premium (subscription_step t d) = expected_premium d"
  "premium_percentage (subscription_step t d) = premium_percentage d"
  "offer_start_date (subscription_step t d) = offer_start_date d"
  "offer_end_date (subscription_step t d) = offer_end_date d"
  "ipo_type (subscription_step t d) = ipo_type d"
  by (simp_all add: subscription_step_def split: option.splits prod.splits)

lemma premium_step_frame [simp]:
  "company_name (premium_step t d) = company_name d"
  "offer_price_min (premium_step t d) = offer_price_min d"
  "offer_price_max (premium_step t d) = offer_price_max d"
  "lot_size (premium_step t d) = lot_size d"
  "subscription_times (premium_step t d) = subscription_times d"
  "offer_start_date (premium_step t d) = offer_start_date d"
  "offer_end_date (premium_step t d) = offer_end_date d"
  "ipo_type (premium_step t d) = ipo_type d"
  by (simp_all add: premium_step_def split: option.splits prod.splits)

lemma initial_fields [simp]:
  "offer_price_min initial_ipo_data = None" "offer_price_max initial_ipo_data = None"
  "lot_size initial_ipo_data = None" "subscription_times initial_ipo_data = None"
  "expected_premium initial_ipo_data = None" "premium_percentage initial_ipo_data = None"
  "offer_start_date initial_ipo_data = None" "offer_end_date initial_ipo_data = None"
  "company_name initial_ipo_data = ''Unknown Company''"
  by (simp_all add: initial_ipo_data_def)

lemma price_step_own:
  assumes "offer_price_min d = None" "offer_price_max d = None"
  shows "offer_price_min (price_step t d) = offer_price_min (price_step t initial_ipo_data)"
    and "offer_price_max (price_step t d) = offer_price_max (price_step t initial_ipo_data)"
  using assms by (simp_all add: price_step_def split: option.splits prod.splits)

lemma lot_step_own:
  assumes "lot_size d = None"
  shows "lot_size (lot_step t d) = lot_size (lot_step t initial_ipo_data)"
  using assms by (simp add: lot_step_def split: option.splits)

lemma subscription_step_own:
  assumes "subscription_times d = None"
  shows "subscription_times (subscription_step t d) =
         subscription_times (subscription_step t initial_ipo_data)"
  using assms by (simp add: subscription_step_def split: option.splits)


lemma dates_step_own:
  assumes "offer_start_date d = None" "offer_end_date d = None"
  shows "offer_start_date (dates_step t d) = offer_start_date (dates_step t initial_ipo_data)"
    and "offer_end_date (dates_step t d) = offer_end_date (dates_step t initial_ipo_data)"
  using assms by (simp_all add: dates_step_def split: option.splits prod.splits)

lemma price_fields:
  "offer_price_min (extract_fields t) = offer_price_min (price_step t initial_ipo_data)"
  "offer_price_max (extract_fields t) = offer_price_max (price_step t initial_ipo_data)"
proof -
  let ?d = "dates_step t (name_step t initial_ipo_data)"
  have "offer_price_min ?d = None" "offer_price_max ?d = None" by simp_all
  from price_step_own [OF this, of t]
  show "offer_price_min (extract_fields t) = offer_price_min (price_step t initial_ipo_data)"
    and "offer_price_max (extract_fields t) = offer_price_max (price_step t initial_ipo_data)"
    by (simp_all add: extract_fields_def)
qed

lemma lot_field:
  "lot_size (extract_fields t) = lot_size (lot_step t initial_ipo_data)"
proof -
  let ?d = "price_step t (dates_step t (name_step t initial_ipo_data))"
  have "lot_size ?d = None" by simp
  from lot_step_own [OF this, of t] show ?thesis by (simp add: extract_fields_def)
qed


lemma date_fields:
  "offer_start_date (extract_fields t) = offer_start_date (dates_step t initial_ipo_data)"
  "offer_end_date (extract_fields t) = offer_end_date (dates_step t initial_ipo_data)"
proof -
  let ?d = "name_step t initial_ipo_data"
  have "offer_start_date ?d = None" "offer_end_date ?d = None" by simp_all
  from dates_step_own [OF this, of t]
  show "offer_start_date (extract_fields t) = offer_start_date (dates_step t initial_ipo_data)"
    and "offer_end_date (extract_fields t) = offer_end_date (dates_step t initial_ipo_data)"
    by (simp_all add: extract_fields_def)
qed

lemma subscription_field:
  "subscription_times (extract_fields t) =
     subscription_times (subscription_step t initial_ipo_data)"
proof -
  let ?d = "lot_step t (price_step t (dates_step t (name_step t initial_ipo_data)))"
  have "subscription_times ?d = None" by simp
  from subscription_step_own [OF this, of t] show ?thesis by (simp add: extract_fields_def)
qed

lemma name_field:
  "company_name (extract_fields t) = company_name (name_step t initial_ipo_data)"
  by (simp add: extract_fields_def)

lemma price_step_no_match:
  "re_search no_flags price_pattern t = None \<Longrightarrow> price_step t d = d"
  by (simp add: price_step_def)

lemma lot_step_no_match:
  "re_search no_flags lot_pattern t = None \<Longrightarrow> lot_step t d = d"
  by (simp add: lot_step_def)

lemma no_literal_no_match:
  "\<not> sublist lit t \<Longrightarrow> re_search no_flags (Seq (str lit) r) (strip t) = None"
proof -
  assume "\<not> sublist lit t"
  with sublist_strip [of t] have "\<not> sublist lit (strip t)"
    using sublist_order.order_trans by blast
  then have "\<not> occurs no_flags lit (strip t)" by (simp add: occurs_no_flags)
  then show ?thesis unfolding re_search_def by (rule search_from_str_None)
qed

lemma parse_Some_fields:
  assumes "parse_single_ipo_block t = Some d"
  shows "d = extract_fields (strip t)" "truthy (offer_price_min d)" "truthy (lot_size d)"
  using assms by (auto simp: parse_single_ipo_block_def Let_def split: if_splits)

lemma truthy_Some: "truthy v \<Longrightarrow> \<exists>n. v = Some n \<and> n \<noteq> 0"
  by (cases v) (simp_all add: truthy_def)

lemma extend_fields:
  "offer_price_min (ipo_data.extend d m) = offer_price_min d"
  "offer_price_max (ipo_data.extend d m) = offer_price_max d"
  "lot_size (ipo_data.extend d m) = lot_size d"
  by (cases d; simp add: ipo_data.defs)+

lemma process_block_Some:
  "process_block b = Some r \<Longrightarrow>
     \<exists>d v. parse_single_ipo_block b = Some d \<and> investment d = Some v \<and>
           r = ipo_data.extend d (ipo_record.fields v)"
  by (auto simp: process_block_def split: option.splits)

lemma parse_ipo_data_member:
  "r \<in> set (parse_ipo_data page) \<Longrightarrow> \<exists>b. process_block b = Some r"
  by (auto simp: parse_ipo_data_def map_filter_def)

subsection \<open>What the price and lot patterns capture\<close>

lemma plus_cls:
  "re_m no_flags (plus g (Cls f)) k (p, s, caps) = Some x \<Longrightarrow>
     \<exists>n. 1 \<le> n \<and> n \<le> length (takeWhile f s) \<and> k (p + n, drop n s, caps) = Some x"
proof -
  assume h: "re_m no_flags (plus g (Cls f)) k (p, s, caps) = Some x"
  then obtain c cs where s: "s = c # cs" and fc: "f c"
    and st: "star_m g (re_m no_flags (Cls f)) k (Suc p, cs, caps) = Some x"
    by (auto simp: plus_def no_flags_def split: list.splits if_splits)
  from star_cls [OF st] obtain n where "n \<le> length (takeWhile f cs)"
    "k (Suc p + n, drop n cs, caps) = Some x" by blast
  with s fc have "1 \<le> Suc n" "Suc n \<le> length (takeWhile f s)"
    "k (p + Suc n, drop (Suc n) s, caps) = Some x" by simp_all
  then show ?thesis by blast
qed

text \<open>A number, or two numbers joined by a dash: what the price pattern captures.\<close>

definition range_text :: "string \<Rightarrow> bool" where
  "range_text g =
     (\<exists>x y. x \<noteq> [] \<and> list_all isdigit x \<and> list_all isdigit y \<and>
            (g = x \<or> (y \<noteq> [] \<and> g = x @ CHR ''-'' # y)))"

lemma digits_range:
  assumes "re_m no_flags digits_range k (p, s, caps) = Some x"
  shows "\<exists>n \<le> length s. k (p + n, drop n s, caps) = Some x \<and> range_text (take n s)"
proof -
  let ?tail = "Seq (Chr CHR ''-'') (plus True (Cls isdigit))"
  from assms have "re_m no_flags (plus True (Cls isdigit)) (re_m no_flags (opt ?tail) k)
      (p, s, caps) = Some x"
    by (simp add: digits_range_def)
  from plus_cls [OF this] obtain n1 where n1: "1 \<le> n1" "n1 \<le> length (takeWhile isdigit s)"
    and o: "re_m no_flags (opt ?tail) k (p + n1, drop n1 s, caps) = Some x" by blast
  from n1 have d1: "list_all isdigit (take n1 s)" by (simp add: take_takeWhile_all)
  from n1 have l1: "n1 \<le> length s"
    using length_takeWhile_le [of isdigit s] by simp
  with n1 have ne1: "take n1 s \<noteq> []" by auto
  from o have "re_m no_flags ?tail k (p + n1, drop n1 s, caps) = Some x \<or>
               k (p + n1, drop n1 s, caps) = Some x"
    by (auto simp: opt_def split: option.splits)
  then show ?thesis
  proof
    assume "k (p + n1, drop n1 s, caps) = Some x"
    moreover have "range_text (take n1 s)"
      unfolding range_text_def using d1 ne1 by (intro exI [of _ "take n1 s"] exI [of _ "[]"]) simp
    ultimately show ?thesis using l1 by blast
  next
    assume t: "re_m no_flags ?tail k (p + n1, drop n1 s, caps) = Some x"
    then obtain s2 where s2: "drop n1 s = CHR ''-'' # s2"
      and pl: "re_m no_flags (plus True (Cls isdigit)) k (Suc (p + n1), s2, caps) = Some x"
      by (auto simp: no_flags_def split: list.splits if_splits)
    from plus_cls [OF pl] obtain n2 where n2: "1 \<le> n2" "n2 \<le> length (takeWhile isdigit s2)"
      and k: "k (Suc (p + n1) + n2, drop n2 s2, caps) = Some x" by blast
    from n2 have d2: "list_all isdigit (take n2 s2)" by (simp add: take_takeWhile_all)
    from n2 have l2: "n2 \<le> length s2"
      using length_takeWhile_le [of isdigit s2] by simp
    with n2 have ne2: "take n2 s2 \<noteq> []" by auto
    have s: "s = take n1 s @ CHR ''-'' # s2"
      using s2 append_take_drop_id [of n1 s] by simp
    let ?n = "n1 + Suc n2"
    have len: "length s = n1 + Suc (length s2)"
      using arg_cong [OF s2, of length] l1 by simp
    have tk: "take ?n s = take n1 s @ CHR ''-'' # take n2 s2"
      by (subst s) (simp add: l1 min_absorb2)
    have dr: "drop ?n s = drop n2 s2"
      using s2 by (metis add_Suc_right drop_Suc_Cons drop_drop add.commute)
    have "range_text (take ?n s)"
      unfolding range_text_def tk using d1 ne1 d2 ne2
      by (intro exI [of _ "take n1 s"] exI [of _ "take n2 s2"]) simp
    moreover have "k (p + ?n, drop ?n s, caps) = Some x"
      using k dr by (simp add: add.assoc)
    moreover have "?n \<le> length s" using len l2 by simp
    ultimately show ?thesis by blast
  qed
qed

lemma search_lit_grp:
  assumes "re_search no_flags (Seq (str lit) (Grp 1 r)) t = Some m"
    and r: "\<And>k p s caps x. re_m no_flags r k (p, s, caps) = Some x \<Longrightarrow>
              \<exists>n \<le> length s. k (p + n, drop n s, caps) = Some x \<and> P (take n s)"
  shows "P (group m 1) \<and> sublist (lit @ group m 1) t"
proof -
  obtain st e caps where m: "m = (st, e, caps)" by (cases m) auto
  from assms(1) m search_from_SomeD [of no_flags "Seq (str lit) (Grp 1 r)" 0 t st e caps]
  obtain i s' where i: "i \<le> length t"
    and rm: "re_m no_flags (Seq (str lit) (Grp 1 r)) Some (st, drop i t, []) = Some (e, s', caps)"
    by (auto simp: re_search_def)
  let ?s1 = "drop (length lit) (drop i t)"
  let ?p1 = "st + length lit"
  let ?k = "\<lambda>(p', s', caps'). Some (p', s', (1, take (p' - ?p1) ?s1) # caps')"
  from rm have pre: "lit_prefix no_flags lit (drop i t)"
    and g: "re_m no_flags r ?k (?p1, ?s1, []) = Some (e, s', caps)"
    by (auto simp only: re_m.simps re_m_str split: if_splits prod.splits)
  from r [OF g] obtain n where n: "n \<le> length ?s1"
    and k: "?k (?p1 + n, drop n ?s1, []) = Some (e, s', caps)"
    and rt: "P (take n ?s1)" by blast
  from k have "caps = [(1, take n ?s1)]" by simp
  with m have grp: "group m 1 = take n ?s1" by (simp add: group_def)
  from pre have "prefix lit (drop i t)" by (simp add: lit_prefix_no_flags)
  then have e1: "drop i t = lit @ ?s1"
    by (metis append_eq_conv_conj prefixE)
  have "lit @ ?s1 = (lit @ take n ?s1) @ drop n ?s1"
    by (simp only: append_assoc append_take_drop_id)
  with e1 have "drop i t = (lit @ take n ?s1) @ drop n ?s1" by (simp only:)
  then have "t = take i t @ (lit @ take n ?s1) @ drop n ?s1"
    by (metis append_take_drop_id)
  then have "sublist (lit @ take n ?s1) t" unfolding sublist_def by blast
  with rt grp show ?thesis by simp
qed

lemma price_match_group:
  "re_search no_flags price_pattern t = Some m \<Longrightarrow>
     range_text (group m 1) \<and> sublist (''Offer Price'' @ group m 1) t"
  unfolding price_pattern_def by (rule search_lit_grp) (auto dest: digits_range)

lemma lot_match_group:
  "re_search no_flags lot_pattern t = Some m \<Longrightarrow>
     (group m 1 \<noteq> [] \<and> list_all isdigit (group m 1)) \<and> sublist (''Lot Size'' @ group m 1) t"
  unfolding lot_pattern_def
proof (rule search_lit_grp)
  fix k :: mcont and p s caps x
  assume "re_m no_flags (plus True (Cls isdigit)) k (p, s, caps) = Some x"
  from plus_cls [OF this] obtain n where n: "1 \<le> n" "n \<le> length (takeWhile isdigit s)"
    and k: "k (p + n, drop n s, caps) = Some x" by blast
  from n have "list_all isdigit (take n s)" by (simp add: take_takeWhile_all)
  moreover from n have l: "n \<le> length s"
    using length_takeWhile_le [of isdigit s] by simp
  moreover from n l have "take n s \<noteq> []" by auto
  ultimately show "\<exists>n \<le> length s. k (p + n, drop n s, caps) = Some x \<and>
      (take n s \<noteq> [] \<and> list_all isdigit (take n s))"
    using k by blast
qed

subsection \<open>\<open>extract_price\<close> on the captured text\<close>

lemma not_space_dash: "\<not> isspace CHR ''-''"
  by (simp add: isspace_def)

lemma digits_clean: "list_all isdigit x \<Longrightarrow> filter (\<lambda>c. \<not> not_price_char c) x = x"
  by (induction x) (auto simp: not_price_char_def)

lemma extract_price_single:
  assumes "x \<noteq> []" "list_all isdigit x"
  shows "extract_price x = (Some (digits_val x), Some (digits_val x))"
proof -
  from assms(2) have nosp: "\<forall>c \<in> set x. \<not> isspace c"
    by (auto simp: list_all_iff dest: isdigit_props)
  from assms(2) have nodash: "CHR ''-'' \<notin> set x"
    by (auto simp: list_all_iff dest: isdigit_props)
  have cl: "re_sub no_flags (Cls not_price_char) [] x = x"
    by (simp add: re_sub_Cls digits_clean [OF assms(2)])
  show ?thesis
    using assms nodash
    by (simp add: extract_price_def cl Let_def strip_id [OF nosp] py_int_digits)
qed

lemma extract_price_pair:
  assumes "x \<noteq> []" "list_all isdigit x" "y \<noteq> []" "list_all isdigit y"
  shows "extract_price (x @ CHR ''-'' # y) = (Some (digits_val x), Some (digits_val y))"
proof -
  let ?g = "x @ CHR ''-'' # y"
  from assms have nx: "\<forall>c \<in> set x. \<not> isspace c" and ny: "\<forall>c \<in> set y. \<not> isspace c"
    by (auto simp: list_all_iff dest: isdigit_props)
  then have nosp: "\<forall>c \<in> set ?g. \<not> isspace c" using not_space_dash by auto
  from assms have dx: "CHR ''-'' \<notin> set x" and dy: "CHR ''-'' \<notin> set y"
    by (auto simp: list_all_iff dest: isdigit_props)
  have "filter (\<lambda>c. \<not> not_price_char c) ?g = ?g"
    using digits_clean [OF assms(2)] digits_clean [OF assms(4)]
    by (simp add: not_price_char_def)
  then have cl: "re_sub no_flags (Cls not_price_char) [] ?g = ?g"
    by (simp add: re_sub_Cls)
  have sp: "split CHR ''-'' ?g = [x, y]" using dx dy by (rule split_pair)
  show ?thesis
    using assms
    by (simp add: extract_price_def strip_id [OF nosp] cl Let_def sp strip_id [OF nx]
        strip_id [OF ny] py_int_digits)
qed

lemma extract_price_both:
  "(fst (extract_price txt) = None) = (snd (extract_price txt) = None)"
  by (simp add: extract_price_def Let_def split: list.splits option.splits)

lemma extract_price_range:
  assumes "range_text g"
  shows "\<exists>x y. x \<noteq> [] \<and> list_all isdigit x \<and> y \<noteq> [] \<and> list_all isdigit y \<and>
     ((g = x \<and> extract_price g = (Some (digits_val x), Some (digits_val x))) \<or>
      (g = x @ CHR ''-'' # y \<and> extract_price g = (Some (digits_val x), Some (digits_val y))))"
proof -
  from assms obtain x y where x: "x \<noteq> []" "list_all isdigit x" and y: "list_all isdigit y"
    and g: "g = x \<or> (y \<noteq> [] \<and> g = x @ CHR ''-'' # y)"
    unfolding range_text_def by blast
  from g show ?thesis
  proof
    assume "g = x"
    with x extract_price_single [OF x] show ?thesis by blast
  next
    assume h: "y \<noteq> [] \<and> g = x @ CHR ''-'' # y"
    with x y extract_price_pair [of x y] show ?thesis by blast
  qed
qed

lemma split_acc_one: "split_acc sep acc s = [b] \<Longrightarrow> sep \<notin> set s \<and> b = rev acc @ s"
proof -
  assume h: "split_acc sep acc s = [b]"
  have "sep \<notin> set s"
  proof
    assume "sep \<in> set s"
    from split_acc_length [OF this, of acc] h show False by simp
  qed
  with h show ?thesis by (simp add: split_acc_no_sep)
qed

lemma split_acc_two:
  "split_acc sep acc s = [a, b] \<Longrightarrow>
     \<exists>x. a = rev acc @ x \<and> s = x @ sep # b \<and> sep \<notin> set x \<and> sep \<notin> set b"
proof (induction s arbitrary: acc)
  case Nil
  then show ?case by simp
next
  case (Cons c cs)
  show ?case
  proof (cases "c = sep")
    case True
    with Cons.prems have "a = rev acc" "split_acc sep [] cs = [b]" by auto
    with split_acc_one [of sep "[]" cs b] True show ?thesis by auto
  next
    case False
    with Cons.prems have "split_acc sep (c # acc) cs = [a, b]" by simp
    from Cons.IH [OF this] obtain x where "a = rev (c # acc) @ x" "cs = x @ sep # b"
      "sep \<notin> set x" "sep \<notin> set b" by blast
    with False have "a = rev acc @ (c # x)" "c # cs = (c # x) @ sep # b"
      "sep \<notin> set (c # x)" "sep \<notin> set b" by auto
    then show ?thesis by blast
  qed
qed

lemma py_int_digits_SomeD: "py_int s = Some n \<Longrightarrow> list_all isdigit s \<Longrightarrow> s \<noteq> []"
proof
  assume "py_int s = Some n" "s = []"
  then show False by (simp add: py_int_def strip_def)
qed

lemma extract_price_alphabet:
  assumes sub: "\<forall>c \<in> set g. isdigit c \<or> c = CHR ''-''"
    and some: "extract_price g \<noteq> (None, None)"
  shows "range_text g"
proof -
  from sub have nosp: "\<forall>c \<in> set g. \<not> isspace c"
    using not_space_dash by (auto dest: isdigit_props)
  from sub have "filter (\<lambda>c. \<not> not_price_char c) g = g"
    by (induction g) (auto simp: not_price_char_def)
  then have cl: "re_sub no_flags (Cls not_price_char) [] g = g"
    by (simp add: re_sub_Cls)
  show ?thesis
  proof (cases "CHR ''-'' \<in> set g")
    case False
    with sub have d: "list_all isdigit g" by (auto simp: list_all_iff)
    from some False obtain n where "py_int g = Some n"
      by (auto simp: extract_price_def cl Let_def strip_id [OF nosp] split: if_splits option.splits)
    from py_int_digits_SomeD [OF this d] d show ?thesis
      unfolding range_text_def by (intro exI [of _ g] exI [of _ "[]"]) simp
  next
    case True
    with some obtain a b where sp: "split CHR ''-'' g = [a, b]"
      and ia: "py_int (strip a) \<noteq> None" and ib: "py_int (strip b) \<noteq> None"
      by (auto simp: extract_price_def strip_id [OF nosp] cl Let_def
          split: if_splits option.splits list.splits)
    from sp split_acc_two [of "CHR ''-''" "[]" g a b]
    have g: "g = a @ CHR ''-'' # b" and na: "CHR ''-'' \<notin> set a" and nb: "CHR ''-'' \<notin> set b"
      by (auto simp: split_def)
    from g sub na nb have da: "list_all isdigit a" and db: "list_all isdigit b"
      by (auto simp: list_all_iff)
    from da db have "strip a = a" "strip b = b"
      by (auto intro!: strip_id simp: list_all_iff dest: isdigit_props)
    with ia ib da db have "a \<noteq> []" "b \<noteq> []"
      by (auto dest: py_int_digits_SomeD)
    with g da db show ?thesis
      unfolding range_text_def by (intro exI [of _ a] exI [of _ b]) simp
  qed
qed

lemma price_step_fields:
  assumes "truthy (offer_price_min (price_step t initial_ipo_data))"
  shows "\<exists>m. re_search no_flags price_pattern t = Some m \<and>
     extract_price (group m 1) =
       (offer_price_min (price_step t initial_ipo_data),
        offer_price_max (price_step t initial_ipo_data))"
  using assms
  by (auto simp: price_step_def initial_ipo_data_def truthy_def split: option.splits prod.splits if_splits)

lemma lot_step_field:
  assumes "truthy (lot_size (lot_step t initial_ipo_data))"
  shows "\<exists>m. re_search no_flags lot_pattern t = Some m \<and>
     py_int (group m 1) = lot_size (lot_step t initial_ipo_data)"
  using assms
  by (auto simp: lot_step_def initial_ipo_data_def truthy_def split: option.splits)

lemma price_fields_together:
  "(offer_price_min (extract_fields t) = None) = (offer_price_max (extract_fields t) = None)"
proof (cases "truthy (offer_price_min (price_step t initial_ipo_data))")
  case True
  from price_step_fields [OF this] obtain m where
    "extract_price (group m 1) =
       (offer_price_min (price_step t initial_ipo_data),
        offer_price_max (price_step t initial_ipo_data))" by blast
  with extract_price_both [of "group m 1"] show ?thesis by (simp add: price_fields)
next
  case False
  then have "price_step t initial_ipo_data = initial_ipo_data"
    by (auto simp: price_step_def split: option.splits prod.splits)
  then show ?thesis by (simp add: price_fields initial_ipo_data_def)
qed

lemma accepted_price:
  assumes "parse_single_ipo_block t = Some d"
  shows "\<exists>g. range_text g \<and> sublist (''Offer Price'' @ g) t \<and>
            extract_price g = (offer_price_min d, offer_price_max d)"
proof -
  from parse_Some_fields [OF assms] have d: "d = extract_fields (strip t)"
    and tr: "truthy (offer_price_min d)" by blast+
  from tr d have "truthy (offer_price_min (price_step (strip t) initial_ipo_data))"
    by (simp add: price_fields)
  from price_step_fields [OF this] obtain m
    where m: "re_search no_flags price_pattern (strip t) = Some m"
      and e: "extract_price (group m 1) = (offer_price_min d, offer_price_max d)"
    by (auto simp: d price_fields)
  from price_match_group [OF m] have "range_text (group m 1)"
    and "sublist (''Offer Price'' @ group m 1) (strip t)" by simp_all
  moreover from this(2) sublist_strip [of t] have "sublist (''Offer Price'' @ group m 1) t"
    using sublist_order.order_trans by blast
  ultimately show ?thesis using e by blast
qed

lemma accepted_lot:
  assumes "parse_single_ipo_block t = Some d"
  shows "\<exists>g. g \<noteq> [] \<and> list_all isdigit g \<and> sublist (''Lot Size'' @ g) t \<and>
            lot_size d = Some (digits_val g) \<and> digits_val g \<noteq> 0"
proof -
  from parse_Some_fields [OF assms] have d: "d = extract_fields (strip t)"
    and tr: "truthy (lot_size d)" by blast+
  from tr d have tr': "truthy (lot_size (lot_step (strip t) initial_ipo_data))"
    by (simp add: lot_field)
  from lot_step_field [OF tr'] obtain m
    where m: "re_search no_flags lot_pattern (strip t) = Some m"
      and e: "py_int (group m 1) = lot_size d"
    by (auto simp: d lot_field)
  from lot_match_group [OF m] have g: "group m 1 \<noteq> []" "list_all isdigit (group m 1)"
    and "sublist (''Lot Size'' @ group m 1) (strip t)" by simp_all
  from this(3) sublist_strip [of t] have s: "sublist (''Lot Size'' @ group m 1) t"
    using sublist_order.order_trans by blast
  from e py_int_digits [OF g] have l: "lot_size d = Some (digits_val (group m 1))" by simp
  with tr have "digits_val (group m 1) \<noteq> 0" by (simp add: truthy_def)
  with g s l show ?thesis by blast
qed

lemma accepted_bounds:
  assumes p: "parse_single_ipo_block t = Some d"
  shows "\<exists>a b l. offer_price_min d = Some a \<and> offer_price_max d = Some b \<and>
               lot_size d = Some l \<and> 1 \<le> a \<and> 0 \<le> b \<and> 1 \<le> l"
proof -
  from accepted_price [OF p] obtain g where rt: "range_text g"
    and ep: "extract_price g = (offer_price_min d, offer_price_max d)" by blast
  from extract_price_range [OF rt] ep obtain x y
    where a: "offer_price_min d = Some (digits_val x)"
      and b: "offer_price_max d = Some (digits_val y)"
    by auto
  from parse_Some_fields(2) [OF p] a have "digits_val x \<noteq> 0" by (simp add: truthy_def)
  with digits_val_nonneg [of x] have a1: "1 \<le> digits_val x" by simp
  from accepted_lot [OF p] obtain z where l: "lot_size d = Some (digits_val z)"
    and "digits_val z \<noteq> 0" by blast
  with digits_val_nonneg [of z] have "1 \<le> digits_val z" by simp
  with a b a1 l digits_val_nonneg [of y] show ?thesis by blast
qed

lemma extend_investment:
  "investment_per_lot (ipo_data.extend d (ipo_record.fields v)) = v"
  by (cases d) (simp add: ipo_data.defs ipo_record.defs)


lemma extract_dates_both:
  "(fst (extract_dates txt) = None) = (snd (extract_dates txt) = None)"
  by (simp add: extract_dates_def split: option.splits)

lemma extract_dates_pair: "extract_dates txt = (a, b) \<Longrightarrow> (a = None) = (b = None)"
  using extract_dates_both [of "txt"] by simp

lemma date_fields_together:
  "(offer_start_date (extract_fields t) = None) = (offer_end_date (extract_fields t) = None)"
  by (auto simp: date_fields dates_step_def split: option.splits prod.splits
      dest: extract_dates_pair)

subsection \<open>The company name\<close>

text \<open>The cleaned candidates that the patterns yield for a text, in the order of the patterns.\<close>

definition candidates :: "regex list \<Rightarrow> string \<Rightarrow> string list" where
  "candidates ps full_text =
     List.map_filter
       (\<lambda>p. map_option (\<lambda>m. clean_name (group m 1)) (re_search no_flags p full_text)) ps"

lemma first_name_filter:
  "first_name ps t = (case filter valid_name (candidates ps t) of [] \<Rightarrow> None | n # _ \<Rightarrow> Some n)"
  by (induction ps) (auto simp: candidates_def map_filter_simps Let_def split: option.splits)

lemma star_cls_all:
  "list_all f s \<Longrightarrow> k (p + length s, [], caps) = Some x \<Longrightarrow>
     star_m True (re_m no_flags (Cls f)) k (p, s, caps) \<noteq> None"
proof (induction s arbitrary: p)
  case Nil
  then show ?case by (subst star_m.simps) (simp add: no_flags_def)
next
  case (Cons c cs)
  define mr where "mr = re_m no_flags (Cls f)"
  from Cons.prems have "list_all f cs" "k (Suc p + length cs, [], caps) = Some x" and fc: "f c"
    by simp_all
  from Cons.IH [OF this(1,2)] have ih: "star_m True mr k (Suc p, cs, caps) \<noteq> None"
    unfolding mr_def .
  let ?again = "\<lambda>(p', s', caps'). if length s' < length (c # cs)
                                    then star_m True mr k (p', s', caps') else None"
  have "mr ?again (p, c # cs, caps) = star_m True mr k (Suc p, cs, caps)"
    using fc by (simp add: mr_def no_flags_def)
  with ih have "mr ?again (p, c # cs, caps) \<noteq> None" by simp
  then have "star_m True mr k (p, c # cs, caps) \<noteq> None"
    by (subst star_m.simps) (auto split: option.splits)
  then show ?case unfolding mr_def .
qed

lemma whole_class_match:
  assumes nl: "f (CHR 0x0A)"
  shows "(re_match no_flags (seqs [Bol, plus True (Cls f), Eol]) s \<noteq> None) =
         (s \<noteq> [] \<and> list_all f s)"
proof
  assume "s \<noteq> [] \<and> list_all f s"
  then obtain c cs where s: "s = c # cs" and fc: "f c" and fcs: "list_all f cs"
    by (cases s) auto
  define k where "k = re_m no_flags Eol Some"
  have "k (Suc 0 + length cs, [], []) = Some (Suc 0 + length cs, [], [])"
    by (simp add: k_def)
  with fcs have "star_m True (re_m no_flags (Cls f)) k (Suc 0, cs, []) \<noteq> None"
    by (rule star_cls_all)
  with s fc show "re_match no_flags (seqs [Bol, plus True (Cls f), Eol]) s \<noteq> None"
    by (auto simp: re_match_def plus_def no_flags_def k_def split: option.splits)
next
  assume "re_match no_flags (seqs [Bol, plus True (Cls f), Eol]) s \<noteq> None"
  then obtain x where "re_m no_flags (plus True (Cls f)) (re_m no_flags Eol Some) (0, s, []) = Some x"
    by (auto simp: re_match_def split: option.splits)
  from plus_cls [OF this] obtain n where n: "1 \<le> n" "n \<le> length (takeWhile f s)"
    and e: "re_m no_flags Eol Some (0 + n, drop n s, []) = Some x" by blast
  from n have t: "list_all f (take n s)" by (simp add: take_takeWhile_all)
  from e have "drop n s = [] \<or> drop n s = [CHR 0x0A]" by (auto split: if_splits)
  with nl have d: "list_all f (drop n s)" by auto
  from t d have "list_all f (take n s @ drop n s)" by (simp only: list_all_append simp_thms)
  then have "list_all f s" by simp
  moreover from n have "s \<noteq> []" by auto
  ultimately show "s \<noteq> [] \<and> list_all f s" by simp
qed

lemma valid_name_iff: "valid_name n = (3 < length n \<and> \<not> list_all numeric_char n)"
proof -
  have "numeric_char (CHR 0x0A)" by (simp add: numeric_char_def isspace_def)
  then have "(re_match no_flags (seqs [Bol, plus True (Cls numeric_char), Eol]) n \<noteq> None) =
         (n \<noteq> [] \<and> list_all numeric_char n)"
    by (rule whole_class_match)
  then have eq: "(re_match no_flags (seqs [Bol, plus True (Cls numeric_char), Eol]) n = None) =
         (\<not> (n \<noteq> [] \<and> list_all numeric_char n))"
    by blast
  show ?thesis unfolding valid_name_def eq by auto
qed

subsection \<open>The matches of the block pattern\<close>

lemma lit_prefix_length: "lit_prefix fl lit s \<Longrightarrow> length lit \<le> length s"
  by (induction fl lit s rule: lit_prefix.induct) auto













section \<open>The claims\<close>

text \<open>
  C1.  A segment without a parseable price or lot size is rejected, whatever else it holds:
  when the text \<open>Offer Price\<close> or the text \<open>Lot Size\<close> is missing, or when the price pattern
  or the lot pattern finds nothing, \<open>parse_single_ipo_block\<close> returns \<open>None\<close>.  A record is
  returned only with both \<open>offer_price_min\<close> and \<open>lot_size\<close> present, and no record of
  \<open>parse_ipo_data\<close> lacks either of them: a rejected segment leaves no record.
\<close>

theorem rejected_without_price_or_lot:
  "(\<not> sublist ''Offer Price'' t \<or> \<not> sublist ''Lot Size'' t \<or>
    re_search no_flags price_pattern (strip t) = None \<or>
    re_search no_flags lot_pattern (strip t) = None
      \<longrightarrow> parse_single_ipo_block t = None) \<and>
   (parse_single_ipo_block t = Some d \<longrightarrow> offer_price_min d \<noteq> None \<and> lot_size d \<noteq> None) \<and>
   (\<forall>r \<in> set (parse_ipo_data page). offer_price_min r \<noteq> None \<and> lot_size r \<noteq> None)"
proof (intro conjI impI ballI)
  assume h: "\<not> sublist ''Offer Price'' t \<or> \<not> sublist ''Lot Size'' t \<or>
    re_search no_flags price_pattern (strip t) = None \<or>
    re_search no_flags lot_pattern (strip t) = None"
  have p: "\<not> sublist ''Offer Price'' t \<Longrightarrow> re_search no_flags price_pattern (strip t) = None"
    unfolding price_pattern_def by (rule no_literal_no_match)
  have l: "\<not> sublist ''Lot Size'' t \<Longrightarrow> re_search no_flags lot_pattern (strip t) = None"
    unfolding lot_pattern_def by (rule no_literal_no_match)
  from h have "re_search no_flags price_pattern (strip t) = None \<or>
        re_search no_flags lot_pattern (strip t) = None"
  proof (elim disjE)
    assume "\<not> sublist ''Offer Price'' t"
    then show ?thesis using p by simp
  next
    assume "\<not> sublist ''Lot Size'' t"
    then show ?thesis using l by simp
  qed simp_all
  then have "offer_price_min (extract_fields (strip t)) = None \<or>
             lot_size (extract_fields (strip t)) = None"
    by (auto simp: price_fields lot_field price_step_no_match lot_step_no_match
        initial_ipo_data_def)
  then show "parse_single_ipo_block t = None"
    by (auto simp: parse_single_ipo_block_def Let_def truthy_def)
next
  assume "parse_single_ipo_block t = Some d"
  from parse_Some_fields [OF this]
  show "offer_price_min d \<noteq> None" "lot_size d \<noteq> None"
    by (auto dest: truthy_Some)
next
  fix r assume "r \<in> set (parse_ipo_data page)"
  then obtain b d v where "parse_single_ipo_block b = Some d"
    and r: "r = ipo_data.extend d (ipo_record.fields v)"
    using parse_ipo_data_member process_block_Some by blast
  from parse_Some_fields [OF this(1)]
  have "offer_price_min d \<noteq> None" "lot_size d \<noteq> None"
    by (auto dest: truthy_Some)
  with r show "offer_price_min r \<noteq> None" "lot_size r \<noteq> None"
    by (simp_all add: extend_fields)
qed

theorem rejected_without_price_or_lot_witness:
  "\<not> sublist ''Offer Price'' ''Lot Size100 12.5 times'' \<and>
   parse_single_ipo_block ''Lot Size100 12.5 times'' = None \<and>
   parse_single_ipo_block ''Offer Price54Lot Size10'' =
     Some \<lparr>company_name = ''Unknown Company'', offer_price_min = Some 54,
            offer_price_max = Some 54, lot_size = Some 10, subscription_times = None,
            expected_premium = None, premium_percentage = None,
            offer_start_date = None, offer_end_date = None, ipo_type = ''Current''\<rparr> \<and>
   map offer_price_min
     (parse_ipo_data ''Offer Date: Aug 4, 2025 - Aug 6, 2025Offer Price54Lot Size10'') =
     [Some 54] \<and>
   map lot_size
     (parse_ipo_data ''Offer Date: Aug 4, 2025 - Aug 6, 2025Offer Price54Lot Size10'') =
     [Some 10]"
proof -
  have a: "\<not> sublist ''Offer Price'' ''Lot Size100 12.5 times''"
    by code_simp
  have b: "parse_single_ipo_block ''Offer Price54Lot Size10'' =
     Some \<lparr>company_name = ''Unknown Company'', offer_price_min = Some 54,
            offer_price_max = Some 54, lot_size = Some 10, subscription_times = None,
            expected_premium = None, premium_percentage = None,
            offer_start_date = None, offer_end_date = None, ipo_type = ''Current''\<rparr>"
    by code_simp
  have c: "map offer_price_min
     (parse_ipo_data ''Offer Date: Aug 4, 2025 - Aug 6, 2025Offer Price54Lot Size10'') =
     [Some 54]"
    by code_simp
  have d: "map lot_size
     (parse_ipo_data ''Offer Date: Aug 4, 2025 - Aug 6, 2025Offer Price54Lot Size10'') =
     [Some 10]"
    by code_simp
  from a b c d show ?thesis
    using rejected_without_price_or_lot [of "''Lot Size100 12.5 times''"]
    by simp
qed




text \<open>
  C4.  \<open>extract_price\<close> gives \<open>(160, 170)\<close> for \<open>160-170\<close> and \<open>(54, 54)\<close> for \<open>54\<close>.  Its two
  results are present together or absent together, for every text, and so are the two price
  fields of every extracted record.  A text of digits and dashes (the alphabet of the price
  pattern's group) that is not a number or two numbers joined by a dash gives
  \<open>(None, None)\<close>.
\<close>

theorem extract_price_clean_inputs:
  "extract_price ''160-170'' = (Some 160, Some 170) \<and>
   extract_price ''54'' = (Some 54, Some 54) \<and>
   ((fst (extract_price txt) = None) = (snd (extract_price txt) = None)) \<and>
   ((offer_price_min (extract_fields t) = None) = (offer_price_max (extract_fields t) = None)) \<and>
   (list_all (\<lambda>c. isdigit c \<or> c = CHR ''-'') g \<and> \<not> range_text g
      \<longrightarrow> extract_price g = (None, None))"
proof (intro conjI impI)
  show "extract_price ''160-170'' = (Some 160, Some 170)" by code_simp
  show "extract_price ''54'' = (Some 54, Some 54)" by code_simp
  show "(fst (extract_price txt) = None) = (snd (extract_price txt) = None)"
    by (rule extract_price_both)
  show "(offer_price_min (extract_fields t) = None) = (offer_price_max (extract_fields t) = None)"
    by (rule price_fields_together)
next
  assume h: "list_all (\<lambda>c. isdigit c \<or> c = CHR ''-'') g \<and> \<not> range_text g"
  then have "\<forall>c \<in> set g. isdigit c \<or> c = CHR ''-''" by (simp add: list_all_iff)
  from extract_price_alphabet [OF this] h show "extract_price g = (None, None)" by blast
qed

theorem extract_price_clean_inputs_witness:
  "list_all (\<lambda>c. isdigit c \<or> c = CHR ''-'') ''12-'' \<and> \<not> range_text ''12-'' \<and>
   extract_price ''12-'' = (None, None)"
proof -
  have e: "extract_price ''12-'' = (None, None)" by code_simp
  have a: "list_all (\<lambda>c. isdigit c \<or> c = CHR ''-'') ''12-''" by code_simp
  have n: "\<not> range_text ''12-''"
  proof
    assume "range_text ''12-''"
    from extract_price_range [OF this] e show False by auto
  qed
  from a n extract_price_clean_inputs [of _ _ "''12-''"] show ?thesis by simp
qed

text \<open>
  C10.  In every accepted record \<open>offer_price_max\<close> is present with \<open>offer_price_min\<close>, and
  \<open>offer_price_min \<ge> 1\<close> and \<open>lot_size \<ge> 1\<close>: the tests \<open>if min_price\<close> and
  \<open>if ipo_data['offer_price_min'] and ipo_data['lot_size']\<close> are false for \<open>0\<close>.  The two price
  fields of an extracted record are set together or not at all.  A segment whose price or lot
  size reads as zero is rejected although both patterns match.
\<close>

theorem accepted_record_positive:
  "(parse_single_ipo_block t = Some d \<longrightarrow>
      (\<exists>a b l. offer_price_min d = Some a \<and> offer_price_max d = Some b \<and>
               lot_size d = Some l \<and> 1 \<le> a \<and> 1 \<le> l)) \<and>
   ((offer_price_min (extract_fields t) = None) = (offer_price_max (extract_fields t) = None)) \<and>
   re_search no_flags price_pattern ''Offer Price0Lot Size5'' = Some (0, 12, [(1, ''0'')]) \<and>
   re_search no_flags lot_pattern ''Offer Price0Lot Size5'' = Some (12, 21, [(1, ''5'')]) \<and>
   parse_single_ipo_block ''Offer Price0Lot Size5'' = None \<and>
   re_search no_flags price_pattern ''Offer Price5Lot Size0'' = Some (0, 12, [(1, ''5'')]) \<and>
   re_search no_flags lot_pattern ''Offer Price5Lot Size0'' = Some (12, 21, [(1, ''0'')]) \<and>
   parse_single_ipo_block ''Offer Price5Lot Size0'' = None"
proof (intro conjI impI)
  assume p: "parse_single_ipo_block t = Some d"
  from accepted_bounds [OF p]
  show "\<exists>a b l. offer_price_min d = Some a \<and> offer_price_max d = Some b \<and>
               lot_size d = Some l \<and> 1 \<le> a \<and> 1 \<le> l" by blast
next
  show "(offer_price_min (extract_fields t) = None) = (offer_price_max (extract_fields t) = None)"
    by (rule price_fields_together)
  show "re_search no_flags price_pattern ''Offer Price0Lot Size5'' = Some (0, 12, [(1, ''0'')])"
    by code_simp
  show "re_search no_flags lot_pattern ''Offer Price0Lot Size5'' = Some (12, 21, [(1, ''5'')])"
    by code_simp
  show "parse_single_ipo_block ''Offer Price0Lot Size5'' = None" by code_simp
  show "re_search no_flags price_pattern ''Offer Price5Lot Size0'' = Some (0, 12, [(1, ''5'')])"
    by code_simp
  show "re_search no_flags lot_pattern ''Offer Price5Lot Size0'' = Some (12, 21, [(1, ''0'')])"
    by code_simp
  show "parse_single_ipo_block ''Offer Price5Lot Size0'' = None" by code_simp
qed

theorem accepted_record_positive_witness:
  "map_option (\<lambda>d. (offer_price_min d, offer_price_max d, lot_size d))
     (parse_single_ipo_block ''Offer Price7Lot Size3'') = Some (Some 7, Some 7, Some 3) \<and>
   (\<exists>d a b l. parse_single_ipo_block ''Offer Price7Lot Size3'' = Some d \<and>
      offer_price_min d = Some a \<and> offer_price_max d = Some b \<and>
      lot_size d = Some l \<and> 1 \<le> a \<and> 1 \<le> l)"
proof -
  have e: "map_option (\<lambda>d. (offer_price_min d, offer_price_max d, lot_size d))
     (parse_single_ipo_block ''Offer Price7Lot Size3'') = Some (Some 7, Some 7, Some 3)"
    by code_simp
  then obtain d where d: "parse_single_ipo_block ''Offer Price7Lot Size3'' = Some d"
    by (cases "parse_single_ipo_block ''Offer Price7Lot Size3''") auto
  from accepted_record_positive [of "''Offer Price7Lot Size3''" d] d e
  show ?thesis by blast
qed

text \<open>
  C2 (as amended).  The claim's formula, in the claim's words: the product is rounded to the
  nearest integer (Python's \<open>round\<close>, a half going to the even neighbour).
\<close>

definition py_round :: "rat \<Rightarrow> int" where
  "py_round x =
     (let f = \<lfloor>x\<rfloor>; r = x - of_int f
      in if r < 1 / 2 then f else if 1 / 2 < r then f + 1 else if even f then f else f + 1)"

definition spec_investment :: "int \<Rightarrow> int \<Rightarrow> int \<Rightarrow> int" where
  "spec_investment pmin pmax lot = py_round (of_int (pmin + pmax) / 2 * of_int lot)"

text \<open>
  The source writes \<open>int(avg_price * lot_size)\<close>, which cuts the fraction off, and takes
  \<open>offer_price_min\<close> in the place of an \<open>offer_price_max\<close> of \<open>0\<close>.  For every accepted record
  \<open>investment_per_lot\<close> is the integer part of \<open>((min + max) / 2) * lot_size\<close>, that is
  \<open>((min + max) * lot_size) div 2\<close>; for \<open>160-170\<close> and a lot of \<open>100\<close> it is \<open>16500\<close>.  The
  bound \<open>2 ^ 53\<close> is the range in which the source's floating point computes the product
  exactly.
\<close>

theorem investment_truncates:
  "(process_block block = Some r \<and> offer_price_min r = Some pmin \<and>
    offer_price_max r = Some pmax \<and> lot_size r = Some lot \<and>
    (pmin + (if pmax = 0 then pmin else pmax)) * lot < 2 ^ 53
      \<longrightarrow> investment_per_lot r =
            \<lfloor>(of_int (pmin + (if pmax = 0 then pmin else pmax)) / 2 :: rat) * of_int lot\<rfloor> \<and>
          investment_per_lot r = ((pmin + (if pmax = 0 then pmin else pmax)) * lot) div 2) \<and>
   map_option investment_per_lot (process_block ''Offer Price160-170Lot Size100'') = Some 16500"
proof (intro conjI impI)
  assume h: "process_block block = Some r \<and> offer_price_min r = Some pmin \<and>
    offer_price_max r = Some pmax \<and> lot_size r = Some lot \<and>
    (pmin + (if pmax = 0 then pmin else pmax)) * lot < 2 ^ 53"
  let ?m = "if pmax = 0 then pmin else pmax"
  from h process_block_Some [of block r] obtain d v
    where p: "parse_single_ipo_block block = Some d" and i: "investment d = Some v"
      and r: "r = ipo_data.extend d (ipo_record.fields v)" by blast
  from h r have f: "offer_price_min d = Some pmin" "offer_price_max d = Some pmax"
    "lot_size d = Some lot" by (simp_all add: extend_fields)
  from accepted_bounds [OF p] f have b: "1 \<le> pmin" "0 \<le> pmax" "1 \<le> lot" by auto
  from i f have v: "v = py_trunc (of_int (pmin + ?m) / 2 * of_int lot)"
    by (auto simp: investment_def Let_def)
  from b have "0 \<le> pmin + ?m" by simp
  with b have nn: "(0 :: rat) \<le> of_int (pmin + ?m) / 2 * of_int lot" by simp
  from r have "investment_per_lot r = v" by (simp add: extend_investment)
  with v nn show fl: "investment_per_lot r = \<lfloor>(of_int (pmin + ?m) / 2 :: rat) * of_int lot\<rfloor>"
    by (simp add: py_trunc_def)
  have "(of_int (pmin + ?m) / 2 :: rat) * of_int lot = of_int ((pmin + ?m) * lot) / of_int 2"
    by simp
  then have "\<lfloor>(of_int (pmin + ?m) / 2 :: rat) * of_int lot\<rfloor> = ((pmin + ?m) * lot) div 2"
    by (simp only: floor_divide_of_int_eq)
  with fl show "investment_per_lot r = ((pmin + ?m) * lot) div 2" by simp
next
  show "map_option investment_per_lot (process_block ''Offer Price160-170Lot Size100'') = Some 16500"
    by code_simp
qed

theorem investment_truncates_witness:
  "map_option (\<lambda>r. (offer_price_min r, offer_price_max r, lot_size r))
     (process_block ''Offer Price1-2Lot Size1'') = Some (Some 1, Some 2, Some 1) \<and>
   (1 + (if (2 :: int) = 0 then 1 else 2)) * 1 < (2 :: int) ^ 53 \<and>
   (\<exists>r. process_block ''Offer Price1-2Lot Size1'' = Some r \<and>
        investment_per_lot r = ((1 + 2) * 1) div 2 \<and> investment_per_lot r = 1)"
proof -
  have e: "map_option (\<lambda>r. (offer_price_min r, offer_price_max r, lot_size r))
     (process_block ''Offer Price1-2Lot Size1'') = Some (Some 1, Some 2, Some 1)"
    by code_simp
  then obtain r where r: "process_block ''Offer Price1-2Lot Size1'' = Some r"
    by (cases "process_block ''Offer Price1-2Lot Size1''") auto
  with e have f: "offer_price_min r = Some 1" "offer_price_max r = Some 2" "lot_size r = Some 1"
    by simp_all
  have s: "(1 + (if (2 :: int) = 0 then 1 else 2)) * 1 < (2 :: int) ^ 53" by simp
  from investment_truncates [of "''Offer Price1-2Lot Size1''" r 1 2 1] r f s
  have "investment_per_lot r = ((1 + 2) * 1) div 2" by simp
  with r e s show ?thesis by simp
qed

text \<open>
  The claim as stated fails for a fractional product: for the prices \<open>1-2\<close> and a lot of
  \<open>1\<close> the product is \<open>1.5\<close>, the source stores \<open>1\<close>, and rounding gives \<open>2\<close>.
\<close>

theorem investment_rounding_counterexample:
  "map_option (\<lambda>r. (offer_price_min r, offer_price_max r, lot_size r, investment_per_lot r))
     (process_block ''Offer Price1-2Lot Size1'') = Some (Some 1, Some 2, Some 1, 1) \<and>
   spec_investment 1 2 1 = 2"
proof
  show "map_option (\<lambda>r. (offer_price_min r, offer_price_max r, lot_size r, investment_per_lot r))
     (process_block ''Offer Price1-2Lot Size1'') = Some (Some 1, Some 2, Some 1, 1)"
    by code_simp
  have "\<lfloor>3 / 2 :: rat\<rfloor> = 1" by (simp add: floor_eq_iff)
  then show "spec_investment 1 2 1 = 2"
    by (simp add: spec_investment_def py_round_def Let_def)
qed



text \<open>
  C6.  \<open>extract_dates\<close> reads \<open>Aug 4, 2025 - Aug 6, 2025\<close> as 2025-08-04 and 2025-08-06, and
  so does the record of a segment with this offer date.  Its two results are present together
  or absent together for every text, and so are the two dates of every extracted record.  A
  pair with a wrong month name, a day the month does not have, a year of five digits, or a
  single date gives no date at all.
\<close>

theorem dates_parsed_together:
  "extract_dates ''Aug 4, 2025 - Aug 6, 2025'' =
     (Some \<lparr>year = 2025, month = 8, day = 4\<rparr>, Some \<lparr>year = 2025, month = 8, day = 6\<rparr>) \<and>
   (offer_start_date (extract_fields ''Offer Date: Aug 4, 2025 - Aug 6, 2025''),
    offer_end_date (extract_fields ''Offer Date: Aug 4, 2025 - Aug 6, 2025'')) =
     (Some \<lparr>year = 2025, month = 8, day = 4\<rparr>, Some \<lparr>year = 2025, month = 8, day = 6\<rparr>) \<and>
   ((fst (extract_dates txt) = None) = (snd (extract_dates txt) = None)) \<and>
   ((offer_start_date (extract_fields t) = None) = (offer_end_date (extract_fields t) = None)) \<and>
   extract_dates ''Aug 4, 2025 - Foo 6, 2025'' = (None, None) \<and>
   extract_dates ''Feb 30, 2025 - Mar 2, 2025'' = (None, None) \<and>
   extract_dates ''Aug 4, 2025 - Aug 6, 20255'' = (None, None) \<and>
   extract_dates ''Aug 4, 2025'' = (None, None)"
proof (intro conjI)
  show "extract_dates ''Aug 4, 2025 - Aug 6, 2025'' =
     (Some \<lparr>year = 2025, month = 8, day = 4\<rparr>, Some \<lparr>year = 2025, month = 8, day = 6\<rparr>)"
    by code_simp
  have "(offer_start_date (dates_step ''Offer Date: Aug 4, 2025 - Aug 6, 2025'' initial_ipo_data),
         offer_end_date (dates_step ''Offer Date: Aug 4, 2025 - Aug 6, 2025'' initial_ipo_data)) =
     (Some \<lparr>year = 2025, month = 8, day = 4\<rparr>, Some \<lparr>year = 2025, month = 8, day = 6\<rparr>)"
    by code_simp
  then show "(offer_start_date (extract_fields ''Offer Date: Aug 4, 2025 - Aug 6, 2025''),
    offer_end_date (extract_fields ''Offer Date: Aug 4, 2025 - Aug 6, 2025'')) =
     (Some \<lparr>year = 2025, month = 8, day = 4\<rparr>, Some \<lparr>year = 2025, month = 8, day = 6\<rparr>)"
    by (simp only: date_fields)
  show "(fst (extract_dates txt) = None) = (snd (extract_dates txt) = None)"
    by (rule extract_dates_both)
  show "(offer_start_date (extract_fields t) = None) = (offer_end_date (extract_fields t) = None)"
    by (rule date_fields_together)
  show "extract_dates ''Aug 4, 2025 - Foo 6, 2025'' = (None, None)" by code_simp
  show "extract_dates ''Feb 30, 2025 - Mar 2, 2025'' = (None, None)" by code_simp
  show "extract_dates ''Aug 4, 2025 - Aug 6, 20255'' = (None, None)" by code_simp
  show "extract_dates ''Aug 4, 2025'' = (None, None)" by code_simp
qed

text \<open>
  C7.  For the text \<open>No of Apps: 4624 | 13.39 times\<close> the subscription multiple is \<open>13.39\<close>.
  The bare pattern, first in the list, already matches, at the number before \<open>times\<close> and not
  at the number of applications; the compound pattern would capture the same text.
\<close>

theorem subscription_compound_text:
  "subscription_times (extract_fields ''No of Apps: 4624 | 13.39 times'') = Some (1339 / 100) \<and>
   length sub_patterns = 2 \<and>
   re_search fl_ignorecase (sub_patterns ! 0) ''No of Apps: 4624 | 13.39 times'' =
     Some (19, 30, [(1, ''13.39'')]) \<and>
   re_search fl_ignorecase (sub_patterns ! 1) ''No of Apps: 4624 | 13.39 times'' =
     Some (0, 30, [(1, ''13.39'')]) \<and>
   py_float ''13.39'' = Some (1339 / 100) \<and>
   py_float ''4624'' = Some 4624 \<and> (1339 / 100 :: rat) \<noteq> 4624"
proof (intro conjI)
  have "subscription_times (subscription_step ''No of Apps: 4624 | 13.39 times'' initial_ipo_data)
          = Some (1339 / 100)"
    by code_simp
  then show "subscription_times (extract_fields ''No of Apps: 4624 | 13.39 times'') =
      Some (1339 / 100)"
    by (simp only: subscription_field)
  show "length sub_patterns = 2" by (simp add: sub_patterns_def)
  show "re_search fl_ignorecase (sub_patterns ! 0) ''No of Apps: 4624 | 13.39 times'' =
     Some (19, 30, [(1, ''13.39'')])" by code_simp
  show "re_search fl_ignorecase (sub_patterns ! 1) ''No of Apps: 4624 | 13.39 times'' =
     Some (0, 30, [(1, ''13.39'')])" by code_simp
  show "py_float ''13.39'' = Some (1339 / 100)" by code_simp
  show "py_float ''4624'' = Some 4624" by code_simp
  show "(1339 / 100 :: rat) \<noteq> 4624" by simp
qed

text \<open>
  C9.  The company name is the first valid candidate in the order of the five patterns, a
  candidate being the cleaned text of a pattern's group (whitespace runs collapsed, dots,
  dashes and blanks stripped at both ends) and valid when it is longer than three characters
  and not made of digits, blanks, dashes and dots only.  Where no pattern yields a valid
  candidate the name stays \<open>Unknown Company\<close>.
\<close>

theorem company_name_first_valid:
  "company_name (extract_fields t) =
     (case filter valid_name (candidates name_patterns t) of
        [] \<Rightarrow> ''Unknown Company'' | n # _ \<Rightarrow> n) \<and>
   (filter valid_name (candidates name_patterns t) = []
      \<longrightarrow> company_name (extract_fields t) = ''Unknown Company'') \<and>
   length name_patterns = 5 \<and>
   (valid_name n = (3 < length n \<and> \<not> list_all numeric_char n)) \<and>
   clean_name ''  Acme   Widgets.- '' = ''Acme Widgets'' \<and>
   candidates name_patterns ''Check Allotment Ab.  View Apply Zed Corp'' =
     [''Ab'', ''Ab'', ''Ab. View Apply Zed Corp'', ''View Apply Zed Corp''] \<and>
   company_name (extract_fields ''Check Allotment Ab.  View Apply Zed Corp'') =
     ''Ab. View Apply Zed Corp''"
proof -
  have main: "company_name (extract_fields t) =
     (case filter valid_name (candidates name_patterns t) of
        [] \<Rightarrow> ''Unknown Company'' | n # _ \<Rightarrow> n)" for t
    by (simp add: name_field name_step_def first_name_filter split: list.splits)
  have c: "candidates name_patterns ''Check Allotment Ab.  View Apply Zed Corp'' =
     [''Ab'', ''Ab'', ''Ab. View Apply Zed Corp'', ''View Apply Zed Corp'']"
    by code_simp
  have v: "filter valid_name
      [''Ab'', ''Ab'', ''Ab. View Apply Zed Corp'', ''View Apply Zed Corp''] =
     [''Ab. View Apply Zed Corp'', ''View Apply Zed Corp'']"
    by code_simp
  have e: "company_name (extract_fields ''Check Allotment Ab.  View Apply Zed Corp'') =
     ''Ab. View Apply Zed Corp''"
    by (simp only: main c v list.case)
  have cl: "clean_name ''  Acme   Widgets.- '' = ''Acme Widgets''" by code_simp
  have len: "length name_patterns = 5" by (simp add: name_patterns_def)
  from main [of t] have u: "filter valid_name (candidates name_patterns t) = []
      \<longrightarrow> company_name (extract_fields t) = ''Unknown Company''"
    by simp
  from main [of t] u len valid_name_iff [of n] cl c e show ?thesis by (intro conjI)
qed

theorem company_name_first_valid_witness:
  "filter valid_name (candidates name_patterns ''Offer Price54Lot Size10'') = [] \<and>
   company_name (extract_fields ''Offer Price54Lot Size10'') = ''Unknown Company''"
proof -
  have "filter valid_name (candidates name_patterns ''Offer Price54Lot Size10'') = []"
    by code_simp
  with company_name_first_valid [of "''Offer Price54Lot Size10''"] show ?thesis by simp
qed




end
